theory Spec2Isabelle
  imports Main "HOL-Library.Word"
begin

section \<open>Data model of the partition processor\<close>

text \<open>
  Go's \<open>int64\<close> is a 64-bit word: \<open>+\<close> wraps around and the comparisons of the source are
  the signed ones. Go's \<open>int\<close> lengths and bounds are modelled as \<open>int\<close>.
\<close>

type_synonym int64 = "64 word"

text \<open>
  A Go pointer is the address of an object together with the object found there. The source
  compares pointers (\<open>group.incomingMessage == incomingMessage\<close>,
  \<open>inFlightMessage.msg == sentMessage\<close>): that is equality of addresses, whatever the
  contents.
\<close>

datatype 'a ptr = Ptr (addr: nat) (deref: 'a)

definition ptr_eq :: "'a ptr \<Rightarrow> 'a ptr \<Rightarrow> bool" where
  "ptr_eq p q = (addr p = addr q)"

text \<open>Values of type \<open>interface{}\<close> and byte slices are opaque to the framework.\<close>

type_synonym bytes = string
type_synonym obj = string

text \<open>\<open>log.Fatal\<close> ends the process; a failed type assertion or a nil dereference panics.\<close>

datatype fatal = Fatal string | Panic string

text \<open>The single quote character, for the messages that quote a name.\<close>

definition quote :: char where
  "quote = CHR 0x27"

record ConsumerMessage =
  cm_Topic :: string
  cm_Partition :: "32 word"
  cm_Offset :: int64
  cm_Key :: bytes
  cm_Value :: bytes
  cm_Timestamp :: int

record IncomingMessage =
  Topic :: string
  Partition :: int
  Offset :: int64
  Key :: obj
  Value :: obj
  Timestamp :: int

record ProducerMessage =
  pm_Topic :: string
  pm_Key :: bytes
  pm_Value :: bytes
  Metadata :: "IncomingMessage ptr option"

record inFlightMessage =
  msg :: "ProducerMessage ptr"
  ack :: bool

record inFlightMessageGroup =
  incomingMessage :: "IncomingMessage ptr"
  inFlightMessages :: "inFlightMessage list"
  committed :: bool

text \<open>
  Modelled from the spec: \<open>inFlightMessageGroup.allAcksAreTrue\<close> is not among the source
  files. The spec: a group is complete when every contained InFlightMessage has
  \<open>ack = true\<close>, and on an empty group the answer is true.
\<close>

definition allAcksAreTrue :: "inFlightMessageGroup \<Rightarrow> bool" where
  "allAcksAreTrue g = list_all ack (inFlightMessages g)"

record Serde =
  KeySerde :: "bytes \<Rightarrow> obj"
  ValueSerde :: "bytes \<Rightarrow> obj"

text \<open>
  The configuration read by the processor. \<open>markOffsetsManually\<close> and
  \<open>markOffsetsAutomatically\<close> are methods of the configuration whose bodies are not among
  the source files: their two answers are taken as given.
\<close>

record Config =
  TopicSerdes :: "string \<rightharpoonup> Serde"
  MaxInFlightMessageGroups :: int
  markOffsetsManually :: bool
  markOffsetsAutomatically :: bool

text \<open>
  A partition offset manager of the broker library answers \<open>NextOffset\<close> and receives
  \<open>MarkOffset\<close>; \<open>marked\<close> is the history of the \<open>MarkOffset\<close> calls it has received,
  oldest first. A partition consumer is known by the arguments \<open>ConsumePartition\<close> opened
  it with.
\<close>

record PartitionOffsetManager =
  NextOffset :: int64
  marked :: "(int64 \<times> string) list"

record PartitionConsumer =
  pc_topic :: string
  pc_partition :: "32 word"
  pc_offset :: int64

text \<open>
  The topic processor owns the configuration, the input topics and the handles of the broker
  library. What the library answers is taken as given: each call returns its error text
  (\<open>Inl\<close>, or \<open>Some\<close> where there is no other result) or succeeds.
\<close>

record TopicProcessor =
  config :: Config
  inputTopics :: "string list"
  NewConsumerFromClient :: "string option"
  ManagePartition :: "string \<Rightarrow> 32 word \<Rightarrow> string + PartitionOffsetManager"
  GetOffset :: "string \<Rightarrow> 32 word \<Rightarrow> int64 \<Rightarrow> string + int64"
  ConsumePartition :: "string \<Rightarrow> 32 word \<Rightarrow> int64 \<Rightarrow> string option"

text \<open>\<open>sarama.OffsetNewest\<close>, the library's request for the newest offset of the log.\<close>

definition OffsetNewest :: int64 where
  "OffsetNewest = - 1"

text \<open>
  What the user's message processor does with the Sender and the Coordinator it is handed:
  the calls it makes on them, in order.
\<close>

datatype user_call = Send "ProducerMessage ptr" | Commit

type_synonym MessageProcessor = "IncomingMessage \<Rightarrow> user_call list"

text \<open>
  The processor. Its \<open>coordinator\<close> is a pointer back to the processor itself, acted on
  through \<open>commit\<close> below, and its \<open>consumer\<close> is only closed at shutdown: neither holds
  state of its own, and neither is a field here.
\<close>

record partitionProcessor =
  topicProcessor :: TopicProcessor
  partitionConsumers :: "PartitionConsumer list"
  offsetManagers :: "string \<rightharpoonup> PartitionOffsetManager"
  messageProcessor :: MessageProcessor
  pp_inputTopics :: "string list"
  partition :: int
  inFlightMessageGroups :: "string \<rightharpoonup> inFlightMessageGroup list"
  commitNextInFlightMessageGroup :: bool

text \<open>
  Reading a Go map at a missing key gives the zero value: for a slice the nil slice, of
  length 0.
\<close>

definition queue :: "partitionProcessor \<Rightarrow> string \<Rightarrow> inFlightMessageGroup list" where
  "queue pp topic = (case inFlightMessageGroups pp topic of None \<Rightarrow> [] | Some q \<Rightarrow> q)"

definition setQueue ::
  "partitionProcessor \<Rightarrow> string \<Rightarrow> inFlightMessageGroup list \<Rightarrow> partitionProcessor" where
  "setQueue pp topic q = pp\<lparr>inFlightMessageGroups := (inFlightMessageGroups pp)(topic \<mapsto> q)\<rparr>"

section \<open>Construction\<close>

text \<open>
  The loop of \<open>newPartitionProcessor\<close> over the input topics; \<open>pcs\<close> and \<open>poms\<close> are the
  partition consumers and the offset managers collected so far.
\<close>

fun openTopics ::
  "TopicProcessor \<Rightarrow> int \<Rightarrow> string list \<Rightarrow> PartitionConsumer list \<Rightarrow>
   (string \<rightharpoonup> PartitionOffsetManager) \<Rightarrow>
   fatal + (PartitionConsumer list \<times> (string \<rightharpoonup> PartitionOffsetManager))" where
  "openTopics tp p [] pcs poms = Inr (pcs, poms)"
| "openTopics tp p (topic # rest) pcs poms =
     (case ManagePartition tp topic (word_of_int p) of
        Inl err \<Rightarrow> Inl (Fatal err)
      | Inr pom \<Rightarrow>
          (case GetOffset tp topic (word_of_int p) OffsetNewest of
             Inl err \<Rightarrow> Inl (Fatal err)
           | Inr newestOffset \<Rightarrow>
               (let nextOffset = NextOffset pom;
                    nextOffset = (if newestOffset <s nextOffset then OffsetNewest else nextOffset)
                in case ConsumePartition tp topic (word_of_int p) nextOffset of
                     Some err \<Rightarrow> Inl (Fatal err)
                   | None \<Rightarrow>
                       openTopics tp p rest
                         (pcs @ [\<lparr>pc_topic = topic, pc_partition = word_of_int p,
                                  pc_offset = nextOffset\<rparr>])
                         (poms(topic \<mapsto> pom)))))"

definition newPartitionProcessor ::
  "TopicProcessor \<Rightarrow> MessageProcessor \<Rightarrow> int \<Rightarrow> fatal + partitionProcessor" where
  "newPartitionProcessor tp mp p =
     (case NewConsumerFromClient tp of
        Some err \<Rightarrow> Inl (Fatal err)
      | None \<Rightarrow>
          (case openTopics tp p (inputTopics tp) [] Map.empty of
             Inl e \<Rightarrow> Inl e
           | Inr (pcs, poms) \<Rightarrow>
               Inr \<lparr>topicProcessor = tp, partitionConsumers = pcs, offsetManagers = poms,
                    messageProcessor = mp, pp_inputTopics = inputTopics tp, partition = p,
                    inFlightMessageGroups = Map.empty,
                    commitNextInFlightMessageGroup = False\<rparr>))"

section \<open>Processing one consumer message\<close>

text \<open>
  Modelled from the spec: the Sender and the Coordinator are not among the source files.
  The spec: \<open>send\<close> appends the message to the Sender's list and sets its metadata to the
  originating IncomingMessage; \<open>createInFlightMessageGroup\<close> freezes the submissions into a
  group with the Sender's origin, one entry per submission with \<open>ack = false\<close>, and the given
  \<open>committed\<close>; \<open>commit\<close> sets \<open>commitNextInFlightMessageGroup\<close> on the processor.
\<close>

record sender =
  s_incomingMessage :: "IncomingMessage ptr"
  producerMessages :: "ProducerMessage ptr list"

definition newSender :: "IncomingMessage ptr \<Rightarrow> sender" where
  "newSender im = \<lparr>s_incomingMessage = im, producerMessages = []\<rparr>"

definition send :: "sender \<Rightarrow> ProducerMessage ptr \<Rightarrow> sender" where
  "send s m =
     s\<lparr>producerMessages := producerMessages s @
         [Ptr (addr m) ((deref m)\<lparr>Metadata := Some (s_incomingMessage s)\<rparr>)]\<rparr>"

definition createInFlightMessageGroup :: "sender \<Rightarrow> bool \<Rightarrow> inFlightMessageGroup" where
  "createInFlightMessageGroup s c =
     \<lparr>incomingMessage = s_incomingMessage s,
      inFlightMessages = map (\<lambda>m. \<lparr>msg = m, ack = False\<rparr>) (producerMessages s),
      committed = c\<rparr>"

definition commit :: "partitionProcessor \<Rightarrow> partitionProcessor" where
  "commit pp = pp\<lparr>commitNextInFlightMessageGroup := True\<rparr>"

text \<open>The user's processor runs: each of its calls acts on the Sender or on the processor.\<close>

fun Process :: "user_call list \<Rightarrow> sender \<times> partitionProcessor \<Rightarrow> sender \<times> partitionProcessor" where
  "Process [] sp = sp"
| "Process (Send m # cs) (s, pp) = Process cs (send s m, pp)"
| "Process (Commit # cs) (s, pp) = Process cs (s, commit pp)"

text \<open>
  \<open>process\<close>; \<open>a\<close> is the address at which Go allocates the local \<open>incomingMessage\<close>, whose
  pointer the Sender keeps.
\<close>

definition process ::
  "partitionProcessor \<Rightarrow> nat \<Rightarrow> ConsumerMessage \<Rightarrow>
   fatal + (partitionProcessor \<times> ProducerMessage ptr list)" where
  "process pp a consumerMessage =
     (case TopicSerdes (config (topicProcessor pp)) (cm_Topic consumerMessage) of
        None \<Rightarrow>
          Inl (Fatal (''Could not find Serde for topic '' @ [quote] @ cm_Topic consumerMessage
                      @ [quote]))
      | Some topicSerde \<Rightarrow>
          (let im = \<lparr>Topic = cm_Topic consumerMessage,
                     Partition = sint (cm_Partition consumerMessage),
                     Offset = cm_Offset consumerMessage,
                     Key = KeySerde topicSerde (cm_Key consumerMessage),
                     Value = ValueSerde topicSerde (cm_Value consumerMessage),
                     Timestamp = cm_Timestamp consumerMessage\<rparr>;
               s = newSender (Ptr a im);
               pp1 = pp\<lparr>commitNextInFlightMessageGroup := False\<rparr>;
               (s', pp2) = Process (messageProcessor pp1 im) (s, pp1);
               g = createInFlightMessageGroup s' (commitNextInFlightMessageGroup pp2);
               pp3 = setQueue pp2 (cm_Topic consumerMessage)
                       (queue pp2 (cm_Topic consumerMessage) @ [g])
           in Inr (pp3, producerMessages s')))"

section \<open>The interior prune\<close>

function pruneInFlightMessageGroupsForTopic ::
  "partitionProcessor \<Rightarrow> string \<Rightarrow> partitionProcessor" where
  "pruneInFlightMessageGroupsForTopic pp topic =
     (if 1 < length (queue pp topic) then
        (let headGroup = queue pp topic ! 0;
             nextGroup = queue pp topic ! 1
         in if \<not> allAcksAreTrue headGroup \<or> \<not> allAcksAreTrue nextGroup then pp
            else pruneInFlightMessageGroupsForTopic
                   (setQueue pp topic (drop 1 (queue pp topic))) topic)
      else pp)"
  by pat_completeness auto
termination
  by (relation "measure (\<lambda>(pp, topic). length (queue pp topic))")
     (auto simp: queue_def setQueue_def)

definition pruneInFlightMessageGroups :: "partitionProcessor \<Rightarrow> partitionProcessor" where
  "pruneInFlightMessageGroups pp =
     foldl pruneInFlightMessageGroupsForTopic pp (inputTopics (topicProcessor pp))"

definition onProcessCompleted :: "partitionProcessor \<Rightarrow> partitionProcessor" where
  "onProcessCompleted pp = pruneInFlightMessageGroups pp"

section \<open>Readiness\<close>

definition isReadyForMessage :: "partitionProcessor \<Rightarrow> ConsumerMessage \<Rightarrow> bool" where
  "isReadyForMessage pp m =
     (let maxGroups = MaxInFlightMessageGroups (config (topicProcessor pp))
      in int (length (queue pp (cm_Topic m))) \<le> maxGroups)"

section \<open>Marking offsets\<close>

text \<open>
  \<open>offsetManager.MarkOffset(offset, metadata)\<close> on the manager of a topic. The map has no
  entry for a topic that was not opened at construction: the call on the nil interface
  panics.
\<close>

definition MarkOffset ::
  "partitionProcessor \<Rightarrow> string \<Rightarrow> int64 \<Rightarrow> string \<Rightarrow> fatal + partitionProcessor" where
  "MarkOffset pp topic offset metadata =
     (case offsetManagers pp topic of
        None \<Rightarrow> Inl (Panic ''invalid memory address or nil pointer dereference'')
      | Some offsetManager \<Rightarrow>
          Inr (pp\<lparr>offsetManagers := (offsetManagers pp)
                 (topic \<mapsto> offsetManager\<lparr>marked := marked offsetManager @ [(offset, metadata)]\<rparr>)\<rparr>))"

text \<open>The loop of \<open>markOffsetsForTopicIfPossible\<close>, with the local \<open>offset\<close>.\<close>

function markOffsetsLoop ::
  "partitionProcessor \<Rightarrow> string \<Rightarrow> int64 \<Rightarrow> fatal + (partitionProcessor \<times> int64)" where
  "markOffsetsLoop pp topic offset =
     (if 0 < length (queue pp topic) then
        (let g = queue pp topic ! 0
         in if \<not> allAcksAreTrue g then Inr (pp, offset)
            else (let offset' = Offset (deref (incomingMessage g))
                  in if committed g \<and> markOffsetsManually (config (topicProcessor pp)) then
                       (case MarkOffset pp topic (offset' + 1) '''' of
                          Inl e \<Rightarrow> Inl e
                        | Inr pp' \<Rightarrow>
                            markOffsetsLoop (setQueue pp' topic (drop 1 (queue pp' topic)))
                              topic offset')
                     else markOffsetsLoop (setQueue pp topic (drop 1 (queue pp topic)))
                            topic offset'))
      else Inr (pp, offset))"
  by pat_completeness auto
termination
  by (relation "measure (\<lambda>(pp, topic, offset). length (queue pp topic))")
     (auto simp: queue_def setQueue_def MarkOffset_def split: option.splits)

definition markOffsetsForTopicIfPossible ::
  "partitionProcessor \<Rightarrow> string \<Rightarrow> fatal + partitionProcessor" where
  "markOffsetsForTopicIfPossible pp topic =
     (case markOffsetsLoop pp topic (- 1) of
        Inl e \<Rightarrow> Inl e
      | Inr (pp', offset) \<Rightarrow>
          if offset \<noteq> - 1 \<and> markOffsetsAutomatically (config (topicProcessor pp')) then
            MarkOffset pp' topic (offset + 1) ''''
          else Inr pp')"

fun markOffsetsTopics :: "partitionProcessor \<Rightarrow> string list \<Rightarrow> fatal + partitionProcessor" where
  "markOffsetsTopics pp [] = Inr pp"
| "markOffsetsTopics pp (topic # rest) =
     (case markOffsetsForTopicIfPossible pp topic of
        Inl e \<Rightarrow> Inl e
      | Inr pp' \<Rightarrow> markOffsetsTopics pp' rest)"

definition markOffsetsIfPossible :: "partitionProcessor \<Rightarrow> fatal + partitionProcessor" where
  "markOffsetsIfPossible pp = markOffsetsTopics pp (inputTopics (topicProcessor pp))"

section \<open>Producer acknowledgements\<close>

text \<open>
  The inner loop of \<open>onProducerAck\<close>: the first in-flight message whose \<open>msg\<close> is the sent
  message gets \<open>ack = true\<close> and the loop ends; \<open>None\<close> when \<open>foundMsg\<close> stays false.
\<close>

fun ackInFlightMessage ::
  "inFlightMessage list \<Rightarrow> ProducerMessage ptr \<Rightarrow> inFlightMessage list option" where
  "ackInFlightMessage [] sentMessage = None"
| "ackInFlightMessage (m # ms) sentMessage =
     (if ptr_eq (msg m) sentMessage then Some (m\<lparr>ack := True\<rparr> # ms)
      else map_option ((#) m) (ackInFlightMessage ms sentMessage))"

text \<open>The outer loop: the first group of the sent message's incoming message, then the end.\<close>

fun ackGroup ::
  "inFlightMessageGroup list \<Rightarrow> IncomingMessage ptr \<Rightarrow> ProducerMessage ptr \<Rightarrow>
   fatal + inFlightMessageGroup list" where
  "ackGroup [] im sentMessage = Inl (Fatal ''Could not find group in inFlightMessageGroups'')"
| "ackGroup (g # gs) im sentMessage =
     (if ptr_eq (incomingMessage g) im then
        (case ackInFlightMessage (inFlightMessages g) sentMessage of
           None \<Rightarrow> Inl (Fatal ''Could not find producer message in inFlightMessageGroups'')
         | Some ms \<Rightarrow> Inr (g\<lparr>inFlightMessages := ms\<rparr> # gs))
      else (case ackGroup gs im sentMessage of
              Inl e \<Rightarrow> Inl e
            | Inr gs' \<Rightarrow> Inr (g # gs')))"

text \<open>
  \<open>onProducerAck\<close>. The groups and their in-flight messages are heap objects that the queue
  points to; each is allocated once, by \<open>createInFlightMessageGroup\<close>, and referenced from
  one place of one queue only, so the write through the pointer is the update of that
  place.
\<close>

definition onProducerAck ::
  "partitionProcessor \<Rightarrow> ProducerMessage ptr \<Rightarrow> fatal + partitionProcessor" where
  "onProducerAck pp sentMessage =
     (case Metadata (deref sentMessage) of
        None \<Rightarrow> Inl (Panic ''interface conversion: interface is nil, not *IncomingMessage'')
      | Some im \<Rightarrow>
          (case ackGroup (queue pp (Topic (deref im))) im sentMessage of
             Inl e \<Rightarrow> Inl e
           | Inr q \<Rightarrow> Inr (setQueue pp (Topic (deref im)) q)))"

section \<open>The Elasticsearch key-value store\<close>

definition indexSettings :: string where
  \<open>indexSettings = ''{
	"index.translog.durability": "sync"
}''\<close>

definition indexMapping :: string where
  \<open>indexMapping = ''{
	"_all" : {
		"enabled" : false
	},
	"dynamic_templates": [{
		"no_index": {
			"mapping": {
				"index": "no"
			},
			"match": "*"
		}
	}]
}''\<close>

text \<open>\<open>strings.Split(s, sep)\<close> of the Go library, for a separator of one byte.\<close>

fun Split :: "string \<Rightarrow> char \<Rightarrow> string list" where
  "Split [] sep = [[]]"
| "Split (c # cs) sep =
     (if c = sep then [] # Split cs sep
      else (case Split cs sep of p # ps \<Rightarrow> (c # p) # ps | [] \<Rightarrow> [[c]]))"

text \<open>
  \<open>util.StructPtrWitness\<close> is not among the source files; its three methods are taken as
  given: the typed nil pointer, a freshly allocated struct, and whether \<open>Assert\<close> on a value
  returns (\<open>True\<close>) or panics.
\<close>

record StructPtrWitness =
  w_Nil :: obj
  w_Allocate :: obj
  w_Assert :: "obj \<Rightarrow> bool"

record GetResult =
  Found :: bool
  Source :: "bytes option"

record PutMappingResponse =
  Acknowledged :: bool

record DeleteResponse =
  dr_Found :: bool

text \<open>
  The requests of the Elasticsearch client library. What the cluster answers to each is
  taken as given; a Go \<open>error\<close> is known by its text, \<open>None\<close> for \<open>nil\<close>.
\<close>

datatype request =
    IndexExistsReq string
  | CreateIndexReq string string
  | PutMappingReq string string string
  | GetReq string string string
  | IndexReq string string string obj
  | DeleteReq string string string

record Client =
  IndexExists :: "string \<Rightarrow> bool \<times> string option"
  CreateIndex :: "string \<Rightarrow> string \<Rightarrow> string option"
  PutMapping :: "string \<Rightarrow> string \<Rightarrow> string \<Rightarrow> PutMappingResponse option \<times> string option"
  GetDoc :: "string \<Rightarrow> string \<Rightarrow> string \<Rightarrow> GetResult option \<times> string option"
  IndexDoc :: "string \<Rightarrow> string \<Rightarrow> string \<Rightarrow> obj \<Rightarrow> string option"
  DeleteDoc :: "string \<Rightarrow> string \<Rightarrow> string \<Rightarrow> DeleteResponse option \<times> string option"
  Unmarshal :: "bytes \<Rightarrow> obj \<Rightarrow> string + obj"

text \<open>
  The store; \<open>requests\<close> is the history of the requests it has sent to the cluster, oldest
  first. Every operation returns its outcome and the store after it, also when it panics.
\<close>

record ElasticsearchKeyValueStore =
  witness :: StructPtrWitness
  client :: Client
  existingIndexes :: "(string \<times> string) list"
  requests :: "request list"

definition sendRequest :: "ElasticsearchKeyValueStore \<Rightarrow> request \<Rightarrow> ElasticsearchKeyValueStore" where
  "sendRequest s r = s\<lparr>requests := requests s @ [r]\<rparr>"

definition putMapping ::
  "ElasticsearchKeyValueStore \<Rightarrow> string \<Rightarrow> string \<Rightarrow> (fatal + unit) \<times> ElasticsearchKeyValueStore" where
  "putMapping s indexName indexType =
     (let s1 = sendRequest s (PutMappingReq indexName indexType indexMapping)
      in case PutMapping (client s) indexName indexType indexMapping of
           (resp, Some err) \<Rightarrow>
             (Inl (Panic (''Failed to put mapping for index: '' @ indexName @ ''/'' @ indexType
                          @ '': '' @ err)), s1)
         | (None, None) \<Rightarrow> (Inl (Panic ''Expected put mapping response; got: <nil>''), s1)
         | (Some resp, None) \<Rightarrow>
             if \<not> Acknowledged resp
             then (Inl (Panic ''Expected put mapping ack; got: false''), s1)
             else (Inr (), s1))"

definition checkOrCreateIndex ::
  "ElasticsearchKeyValueStore \<Rightarrow> string \<Rightarrow> string \<Rightarrow> (fatal + unit) \<times> ElasticsearchKeyValueStore" where
  "checkOrCreateIndex s indexName indexType =
     (if list_ex (\<lambda>existing. fst existing = indexName \<and> snd existing = indexType)
           (existingIndexes s)
      then (Inr (), s)
      else
        (let s1 = sendRequest s (IndexExistsReq indexName)
         in case IndexExists (client s) indexName of
              (ex, Some err) \<Rightarrow> (Inl (Panic (''Failed to check if index exists: '' @ err)), s1)
            | (ex, None) \<Rightarrow>
                if \<not> ex then
                  (let s2 = sendRequest s1 (CreateIndexReq indexName indexSettings)
                   in case CreateIndex (client s) indexName indexSettings of
                        Some err \<Rightarrow> (Inl (Panic (''Failed to create index: '' @ err)), s2)
                      | None \<Rightarrow>
                          (case putMapping s2 indexName indexType of
                             (Inl e, s3) \<Rightarrow> (Inl e, s3)
                           | (Inr u, s3) \<Rightarrow>
                               (Inr (), s3\<lparr>existingIndexes :=
                                   existingIndexes s3 @ [(indexName, indexType)]\<rparr>)))
                else (Inr (), s1\<lparr>existingIndexes :=
                        existingIndexes s1 @ [(indexName, indexType)]\<rparr>)))"

definition invalidKey :: "string \<Rightarrow> string" where
  "invalidKey key = ''invalid key: '' @ [quote] @ key @ [quote]"

definition Get ::
  "ElasticsearchKeyValueStore \<Rightarrow> string \<Rightarrow>
   (fatal + obj option \<times> string option) \<times> ElasticsearchKeyValueStore" where
  "Get s key =
     (let keyParts = Split key (CHR ''/'')
      in if length keyParts \<noteq> 3 then (Inr (None, Some (invalidKey key)), s)
         else
           (let indexName = keyParts ! 0; indexType = keyParts ! 1; valueID = keyParts ! 2
            in case checkOrCreateIndex s indexName indexType of
                 (Inl e, s1) \<Rightarrow> (Inl e, s1)
               | (Inr u, s1) \<Rightarrow>
                   (let s2 = sendRequest s1 (GetReq indexName indexType valueID);
                        (rawValue, err) = GetDoc (client s2) indexName indexType valueID
                    in if err = Some ''elastic: Error 404 (Not Found)''
                       then (Inr (Some (w_Nil (witness s2)), None), s2)
                       else if err \<noteq> None then (Inr (Some (w_Nil (witness s2)), err), s2)
                       else
                         (case rawValue of
                            None \<Rightarrow>
                              (Inl (Panic ''invalid memory address or nil pointer dereference''), s2)
                          | Some raw \<Rightarrow>
                              if \<not> Found raw then (Inr (Some (w_Nil (witness s2)), None), s2)
                              else
                                (let structPtr = w_Allocate (witness s2)
                                 in case Source raw of
                                      None \<Rightarrow>
                                        (Inl (Panic ''invalid memory address or nil pointer dereference''), s2)
                                    | Some src \<Rightarrow>
                                        (case Unmarshal (client s2) src structPtr of
                                           Inl e \<Rightarrow> (Inr (Some (w_Nil (witness s2)), Some e), s2)
                                         | Inr v \<Rightarrow> (Inr (Some v, None), s2)))))))"



section \<open>Observations used in the statements\<close>

text \<open>The offset of the incoming message of a group, read through its pointer.\<close>

definition groupOffset :: "inFlightMessageGroup \<Rightarrow> int64" where
  "groupOffset g = Offset (deref (incomingMessage g))"

text \<open>The \<open>MarkOffset\<close> calls the offset manager of a topic has received.\<close>

definition marks :: "partitionProcessor \<Rightarrow> string \<Rightarrow> (int64 \<times> string) list" where
  "marks pp topic = (case offsetManagers pp topic of None \<Rightarrow> [] | Some pom \<Rightarrow> marked pom)"

text \<open>
  What one run of \<open>markOffsetsForTopicIfPossible\<close> marks on a queue: in the loop, one past
  the offset of every completed head group that is committed, when offsets are marked
  manually; after the loop, one past the last completed head group's offset, when offsets
  are marked automatically and the local \<open>offset\<close> is not \<open>-1\<close>.
\<close>

definition manualMarks :: "Config \<Rightarrow> inFlightMessageGroup list \<Rightarrow> (int64 \<times> string) list" where
  "manualMarks cfg q =
     (if markOffsetsManually cfg
      then map (\<lambda>g. (groupOffset g + 1, '''')) (filter committed (takeWhile allAcksAreTrue q))
      else [])"

definition automaticMarks :: "Config \<Rightarrow> inFlightMessageGroup list \<Rightarrow> (int64 \<times> string) list" where
  "automaticMarks cfg q =
     (let done = takeWhile allAcksAreTrue q
      in if markOffsetsAutomatically cfg \<and> done \<noteq> [] \<and> groupOffset (last done) \<noteq> - 1
         then [(groupOffset (last done) + 1, '''')] else [])"

definition newMarks :: "Config \<Rightarrow> inFlightMessageGroup list \<Rightarrow> (int64 \<times> string) list" where
  "newMarks cfg q = manualMarks cfg q @ automaticMarks cfg q"

text \<open>How many head groups the interior prune removes from a queue.\<close>

fun pruneCount :: "inFlightMessageGroup list \<Rightarrow> nat" where
  "pruneCount (g # h # rest) =
     (if allAcksAreTrue g \<and> allAcksAreTrue h then Suc (pruneCount (h # rest)) else 0)"
| "pruneCount _ = 0"

text \<open>
  The messages the user's processor submits, in submission order, and a submitted message
  as the Sender keeps it.
\<close>

fun submitted :: "user_call list \<Rightarrow> ProducerMessage ptr list" where
  "submitted [] = []"
| "submitted (Send m # cs) = m # submitted cs"
| "submitted (Commit # cs) = submitted cs"

definition withMetadata :: "IncomingMessage ptr \<Rightarrow> ProducerMessage ptr \<Rightarrow> ProducerMessage ptr" where
  "withMetadata im m = Ptr (addr m) ((deref m)\<lparr>Metadata := Some im\<rparr>)"

section \<open>Example states\<close>

definition exIncoming :: "int64 \<Rightarrow> IncomingMessage ptr" where
  "exIncoming off = Ptr (unat off)
     \<lparr>Topic = ''t'', Partition = 0, Offset = off, Key = ''k'', Value = ''v'', Timestamp = 0\<rparr>"

definition exProduced :: "int64 \<Rightarrow> nat \<Rightarrow> ProducerMessage ptr" where
  "exProduced off n = Ptr (1000 + n)
     \<lparr>pm_Topic = ''u'', pm_Key = ''k'', pm_Value = ''v'', Metadata = Some (exIncoming off)\<rparr>"

text \<open>A group for the input at an offset, with one produced message per listed ack flag.\<close>

definition exGroup :: "int64 \<Rightarrow> bool list \<Rightarrow> bool \<Rightarrow> inFlightMessageGroup" where
  "exGroup off acks c =
     \<lparr>incomingMessage = exIncoming off,
      inFlightMessages = map (\<lambda>(n, a). \<lparr>msg = exProduced off n, ack = a\<rparr>) (enumerate 0 acks),
      committed = c\<rparr>"

text \<open>
  One input topic \<open>t\<close>, a bound of four groups, a persisted next offset of 1000000 on a log
  whose newest offset is 42.
\<close>

definition exTopicProcessor :: "bool \<Rightarrow> TopicProcessor" where
  "exTopicProcessor manual =
     \<lparr>config = \<lparr>TopicSerdes = [''t'' \<mapsto> \<lparr>KeySerde = id, ValueSerde = id\<rparr>],
                 MaxInFlightMessageGroups = 4,
                 markOffsetsManually = manual, markOffsetsAutomatically = (\<not> manual)\<rparr>,
      inputTopics = [''t''],
      NewConsumerFromClient = None,
      ManagePartition = (\<lambda>topic p. Inr \<lparr>NextOffset = 1000000, marked = []\<rparr>),
      GetOffset = (\<lambda>topic p which. Inr 42),
      ConsumePartition = (\<lambda>topic p off. None)\<rparr>"

text \<open>A user processor that submits two messages and asks for a commit in between.\<close>

definition exUser :: MessageProcessor where
  "exUser im =
     [Send (Ptr 7 \<lparr>pm_Topic = ''u'', pm_Key = ''a'', pm_Value = Value im, Metadata = None\<rparr>),
      Commit,
      Send (Ptr 8 \<lparr>pm_Topic = ''u'', pm_Key = ''b'', pm_Value = Value im, Metadata = None\<rparr>)]"

definition exProcessor :: "bool \<Rightarrow> inFlightMessageGroup list \<Rightarrow> partitionProcessor" where
  "exProcessor manual q =
     \<lparr>topicProcessor = exTopicProcessor manual, partitionConsumers = [],
      offsetManagers = [''t'' \<mapsto> \<lparr>NextOffset = 0, marked = []\<rparr>],
      messageProcessor = exUser, pp_inputTopics = [''t''], partition = 0,
      inFlightMessageGroups = [''t'' \<mapsto> q], commitNextInFlightMessageGroup = True\<rparr>"

definition exMessage :: ConsumerMessage where
  "exMessage = \<lparr>cm_Topic = ''t'', cm_Partition = 0, cm_Offset = 14, cm_Key = ''k'',
                cm_Value = ''v'', cm_Timestamp = 0\<rparr>"

text \<open>
  A store over a cluster that has every index and no document; its witness rejects the
  value \<open>other\<close>.
\<close>

definition exStore :: ElasticsearchKeyValueStore where
  "exStore =
     \<lparr>witness = \<lparr>w_Nil = ''nil'', w_Allocate = ''new'', w_Assert = (\<lambda>v. v \<noteq> ''other'')\<rparr>,
      client = \<lparr>IndexExists = (\<lambda>i. (True, None)),
                CreateIndex = (\<lambda>i b. None),
                PutMapping = (\<lambda>i t b. (Some \<lparr>Acknowledged = True\<rparr>, None)),
                GetDoc = (\<lambda>i t d. (None, Some ''elastic: Error 404 (Not Found)'')),
                IndexDoc = (\<lambda>i t d v. None),
                DeleteDoc = (\<lambda>i t d. (Some \<lparr>dr_Found = False\<rparr>, None)),
                Unmarshal = (\<lambda>src p. Inr src)\<rparr>,
      existingIndexes = [], requests = []\<rparr>"

declare markOffsetsLoop.simps [simp del]
declare pruneInFlightMessageGroupsForTopic.simps [simp del]

section \<open>Queues and offset managers\<close>

lemmas ex_defs = exProcessor_def exTopicProcessor_def exGroup_def exIncoming_def exProduced_def
  exUser_def exMessage_def

lemma queue_setQueue: "queue (setQueue pp t q) u = (if u = t then q else queue pp u)"
  by (simp add: queue_def setQueue_def)

lemma setQueue_fields:
  "topicProcessor (setQueue pp t q) = topicProcessor pp"
  "offsetManagers (setQueue pp t q) = offsetManagers pp"
  "partitionConsumers (setQueue pp t q) = partitionConsumers pp"
  "messageProcessor (setQueue pp t q) = messageProcessor pp"
  "pp_inputTopics (setQueue pp t q) = pp_inputTopics pp"
  "partition (setQueue pp t q) = partition pp"
  "commitNextInFlightMessageGroup (setQueue pp t q) = commitNextInFlightMessageGroup pp"
  by (simp_all add: setQueue_def)

lemma setQueue_setQueue: "setQueue (setQueue pp t q1) t q2 = setQueue pp t q2"
  by (simp add: setQueue_def)

lemma marks_setQueue: "marks (setQueue pp t q) u = marks pp u"
  by (simp add: marks_def setQueue_def)

lemma queue_commitNext [simp]:
  "queue (pp\<lparr>commitNextInFlightMessageGroup := b\<rparr>) = queue pp"
  by (simp add: queue_def fun_eq_iff)

lemma MarkOffset_Inr:
  assumes "MarkOffset pp t off m = Inr pp'"
  shows "queue pp' = queue pp" "topicProcessor pp' = topicProcessor pp"
    "marks pp' t = marks pp t @ [(off, m)]" "\<And>u. u \<noteq> t \<Longrightarrow> marks pp' u = marks pp u"
    "dom (offsetManagers pp') = dom (offsetManagers pp)"
    "inFlightMessageGroups pp' = inFlightMessageGroups pp"
  using assms
  by (auto simp: MarkOffset_def queue_def marks_def fun_eq_iff split: option.splits if_splits)

lemma MarkOffset_total:
  "t \<in> dom (offsetManagers pp) \<Longrightarrow> \<exists>pp'. MarkOffset pp t off m = Inr pp'"
  by (auto simp: MarkOffset_def)

section \<open>Marking offsets: the loop, one topic, all topics\<close>

lemma markOffsetsLoop_Nil:
  "queue pp t = [] \<Longrightarrow> markOffsetsLoop pp t off = Inr (pp, off)"
  by (subst markOffsetsLoop.simps) simp

lemma markOffsetsLoop_Cons:
  "queue pp t = g # rest \<Longrightarrow> markOffsetsLoop pp t off =
     (if \<not> allAcksAreTrue g then Inr (pp, off)
      else if committed g \<and> markOffsetsManually (config (topicProcessor pp)) then
        (case MarkOffset pp t (Offset (deref (incomingMessage g)) + 1) [] of
           Inl e \<Rightarrow> Inl e
         | Inr pp' \<Rightarrow> markOffsetsLoop (setQueue pp' t rest) t (Offset (deref (incomingMessage g))))
      else markOffsetsLoop (setQueue pp t rest) t (Offset (deref (incomingMessage g))))"
  by (subst markOffsetsLoop.simps) (auto simp: Let_def MarkOffset_Inr(1) split: sum.splits)
lemma markOffsetsLoop_Inr:
  "queue pp t = q \<Longrightarrow> markOffsetsLoop pp t off = Inr (pp', off') \<Longrightarrow>
     queue pp' t = dropWhile allAcksAreTrue q \<and>
     (\<forall>u. u \<noteq> t \<longrightarrow> queue pp' u = queue pp u) \<and>
     topicProcessor pp' = topicProcessor pp \<and>
     off' = (if takeWhile allAcksAreTrue q = [] then off
             else groupOffset (last (takeWhile allAcksAreTrue q))) \<and>
     marks pp' t = marks pp t @ manualMarks (config (topicProcessor pp)) q \<and>
     (\<forall>u. u \<noteq> t \<longrightarrow> marks pp' u = marks pp u) \<and>
     dom (offsetManagers pp') = dom (offsetManagers pp)"
proof (induction q arbitrary: pp off)
  case Nil
  then show ?case by (simp add: markOffsetsLoop_Nil manualMarks_def)
next
  case (Cons g rest)
  note eq = markOffsetsLoop_Cons [OF Cons.prems(1), of off]
  show ?case
  proof (cases "allAcksAreTrue g")
    case False
    with Cons.prems eq show ?thesis by (simp add: manualMarks_def)
  next
    case True
    show ?thesis
    proof (cases "committed g \<and> markOffsetsManually (config (topicProcessor pp))")
      case False
      with True eq Cons.prems(2)
      have run: "markOffsetsLoop (setQueue pp t rest) t (groupOffset g) = Inr (pp', off')"
        by (simp add: groupOffset_def)
      have q: "queue (setQueue pp t rest) t = rest" by (simp add: queue_setQueue)
      from Cons.IH [OF q run] True False show ?thesis
        by (auto simp: queue_setQueue setQueue_fields marks_setQueue manualMarks_def)
    next
      case cm: True
      with True eq Cons.prems(2) obtain pp1 where
        m: "MarkOffset pp t (groupOffset g + 1) [] = Inr pp1" and
        run: "markOffsetsLoop (setQueue pp1 t rest) t (groupOffset g) = Inr (pp', off')"
        by (auto simp: groupOffset_def split: sum.splits)
      have q: "queue (setQueue pp1 t rest) t = rest" by (simp add: queue_setQueue)
      from Cons.IH [OF q run] True cm MarkOffset_Inr [OF m] show ?thesis
        by (auto simp: queue_setQueue setQueue_fields marks_setQueue manualMarks_def)
    qed
  qed
qed

lemma markOffsetsLoop_total:
  "queue pp t = q \<Longrightarrow> t \<in> dom (offsetManagers pp) \<Longrightarrow>
     \<exists>r. markOffsetsLoop pp t off = Inr r"
proof (induction q arbitrary: pp off)
  case Nil
  then show ?case by (simp add: markOffsetsLoop_Nil)
next
  case (Cons g rest)
  note eq = markOffsetsLoop_Cons [OF Cons.prems(1), of off]
  have q: "\<And>p. queue (setQueue p t rest) t = rest" by (simp add: queue_setQueue)
  from MarkOffset_total [OF Cons.prems(2)] obtain pp1 where
    m: "MarkOffset pp t (Offset (deref (incomingMessage g)) + 1) [] = Inr pp1" by blast
  have d1: "t \<in> dom (offsetManagers (setQueue pp1 t rest))"
    using MarkOffset_Inr(5) [OF m] Cons.prems(2) by (simp add: setQueue_fields)
  have d0: "t \<in> dom (offsetManagers (setQueue pp t rest))"
    using Cons.prems(2) by (simp add: setQueue_fields)
  from Cons.IH [OF q d1] Cons.IH [OF q d0] show ?case
    unfolding eq by (simp add: m)
qed

lemma takeWhile_dropWhile_Nil: "takeWhile P (dropWhile P xs) = []"
  by (induction xs) auto

lemma newMarks_dropWhile: "newMarks cfg (dropWhile allAcksAreTrue q) = []"
  by (simp add: newMarks_def manualMarks_def automaticMarks_def takeWhile_dropWhile_Nil)

lemma markOffsetsForTopic_frame:
  assumes "markOffsetsLoop pp t (- 1) = Inr (pp1, off1)"
    and fin: "(if off1 \<noteq> - 1 \<and> markOffsetsAutomatically (config (topicProcessor pp1))
           then MarkOffset pp1 t (off1 + 1) [] else Inr pp1) = Inr pp'"
  shows "queue pp' = queue pp1 \<and> topicProcessor pp' = topicProcessor pp1 \<and>
        (\<forall>u. u \<noteq> t \<longrightarrow> marks pp' u = marks pp1 u) \<and>
        dom (offsetManagers pp') = dom (offsetManagers pp1)"
proof -
  show ?thesis
  proof (cases "off1 \<noteq> - 1 \<and> markOffsetsAutomatically (config (topicProcessor pp1))")
    case False
    with fin have same: "pp' = pp1" by simp
    show ?thesis unfolding same by (intro conjI allI impI refl)
  next
    case True
    with fin have mark: "MarkOffset pp1 t (off1 + 1) [] = Inr pp'" by simp
    from MarkOffset_Inr(1,2,4,5) [OF mark] show ?thesis by blast
  qed
qed


lemma markOffsetsForTopic_Inr:
  assumes "markOffsetsForTopicIfPossible pp t = Inr pp'"
  shows "queue pp' t = dropWhile allAcksAreTrue (queue pp t)"
    and "\<And>u. u \<noteq> t \<Longrightarrow> queue pp' u = queue pp u"
    and "topicProcessor pp' = topicProcessor pp"
    and "marks pp' t = marks pp t @ newMarks (config (topicProcessor pp)) (queue pp t)"
    and "\<And>u. u \<noteq> t \<Longrightarrow> marks pp' u = marks pp u"
    and "dom (offsetManagers pp') = dom (offsetManagers pp)"
proof -
  from assms obtain pp1 off1 where
    run: "markOffsetsLoop pp t (- 1) = Inr (pp1, off1)" and
    fin: "(if off1 \<noteq> - 1 \<and> markOffsetsAutomatically (config (topicProcessor pp1))
           then MarkOffset pp1 t (off1 + 1) [] else Inr pp1) = Inr pp'"
    by (auto simp: markOffsetsForTopicIfPossible_def split: sum.splits)
  note L = markOffsetsLoop_Inr [OF refl run]
  note frame = markOffsetsForTopic_frame [OF run fin]
  from frame L show "queue pp' t = dropWhile allAcksAreTrue (queue pp t)" by simp
  from frame L show "\<And>u. u \<noteq> t \<Longrightarrow> queue pp' u = queue pp u" by simp
  from frame L show "topicProcessor pp' = topicProcessor pp" by simp
  from frame L show "\<And>u. u \<noteq> t \<Longrightarrow> marks pp' u = marks pp u" by simp
  from frame L show "dom (offsetManagers pp') = dom (offsetManagers pp)" by simp
  show "marks pp' t = marks pp t @ newMarks (config (topicProcessor pp)) (queue pp t)"
  proof (cases "off1 \<noteq> - 1 \<and> markOffsetsAutomatically (config (topicProcessor pp1))")
    case True
    with fin have m: "MarkOffset pp1 t (off1 + 1) [] = Inr pp'" by simp
    from True L have "automaticMarks (config (topicProcessor pp)) (queue pp t) = [(off1 + 1, [])]"
      by (auto simp: automaticMarks_def Let_def split: if_splits)
    with MarkOffset_Inr(3) [OF m] L show ?thesis by (simp add: newMarks_def)
  next
    case False
    with fin have "pp' = pp1" by simp
    moreover from False L have "automaticMarks (config (topicProcessor pp)) (queue pp t) = []"
      by (auto simp: automaticMarks_def Let_def split: if_splits)
    ultimately show ?thesis using L by (simp add: newMarks_def)
  qed
qed

lemma markOffsetsForTopic_total:
  assumes "t \<in> dom (offsetManagers pp)"
  shows "\<exists>pp'. markOffsetsForTopicIfPossible pp t = Inr pp'"
proof -
  from markOffsetsLoop_total [OF refl assms] obtain pp1 off1 where
    run: "markOffsetsLoop pp t (- 1) = Inr (pp1, off1)" by fastforce
  from markOffsetsLoop_Inr [OF refl run] assms have "t \<in> dom (offsetManagers pp1)" by simp
  from MarkOffset_total [OF this] show ?thesis
    by (simp add: markOffsetsForTopicIfPossible_def run)
qed

lemma markOffsetsTopics_Inr:
  "markOffsetsTopics pp ts = Inr pp' \<Longrightarrow>
     topicProcessor pp' = topicProcessor pp \<and>
     dom (offsetManagers pp') = dom (offsetManagers pp) \<and>
     (\<forall>t. queue pp' t = (if t \<in> set ts then dropWhile allAcksAreTrue (queue pp t) else queue pp t) \<and>
          marks pp' t = marks pp t @
            (if t \<in> set ts then newMarks (config (topicProcessor pp)) (queue pp t) else []))"
proof (induction ts arbitrary: pp)
  case Nil
  then show ?case by simp
next
  case (Cons t0 rest)
  from Cons.prems obtain pp1 where
    one: "markOffsetsForTopicIfPossible pp t0 = Inr pp1" and
    more: "markOffsetsTopics pp1 rest = Inr pp'"
    by (auto split: sum.splits)
  note A = markOffsetsForTopic_Inr [OF one]
  note B = Cons.IH [OF more]
  show ?case
  proof (intro conjI allI)
    show "topicProcessor pp' = topicProcessor pp" using A B by simp
    show "dom (offsetManagers pp') = dom (offsetManagers pp)" using A B by simp
    fix t
    show "queue pp' t =
        (if t \<in> set (t0 # rest) then dropWhile allAcksAreTrue (queue pp t) else queue pp t)"
      using A(1) A(2) [of t] B by (cases "t = t0") auto
    show "marks pp' t = marks pp t @
        (if t \<in> set (t0 # rest) then newMarks (config (topicProcessor pp)) (queue pp t) else [])"
      using A(1,3,4) A(2) [of t] A(5) [of t] B
      by (cases "t = t0") (auto simp: newMarks_dropWhile)
  qed
qed

lemma markOffsetsTopics_total:
  "set ts \<subseteq> dom (offsetManagers pp) \<Longrightarrow> \<exists>pp'. markOffsetsTopics pp ts = Inr pp'"
proof (induction ts arbitrary: pp)
  case Nil
  then show ?case by simp
next
  case (Cons t0 rest)
  then have "t0 \<in> dom (offsetManagers pp)" by simp
  from markOffsetsForTopic_total [OF this] obtain pp1 where
    one: "markOffsetsForTopicIfPossible pp t0 = Inr pp1" by blast
  from markOffsetsForTopic_Inr(6) [OF one] Cons.prems
  have "set rest \<subseteq> dom (offsetManagers pp1)" by simp
  from Cons.IH [OF this] one show ?case by simp
qed




section \<open>What is marked, and when\<close>




text \<open>
  Claim C4. After \<open>markOffsetsIfPossible\<close> has returned, the queue of every input topic is
  empty or its head group has an in-flight message whose \<open>ack\<close> is false. The call returns
  whenever each input topic has an offset manager.
\<close>

theorem markOffsetsIfPossible_head:
  "(set (inputTopics (topicProcessor pp)) \<subseteq> dom (offsetManagers pp) \<longrightarrow>
      (\<exists>pp'. markOffsetsIfPossible pp = Inr pp')) \<and>
   (\<forall>pp' t. markOffsetsIfPossible pp = Inr pp' \<and> t \<in> set (inputTopics (topicProcessor pp)) \<longrightarrow>
      queue pp' t = [] \<or> (\<exists>m \<in> set (inFlightMessages (hd (queue pp' t))). \<not> ack m))"
proof (intro conjI allI impI)
  assume "set (inputTopics (topicProcessor pp)) \<subseteq> dom (offsetManagers pp)"
  from markOffsetsTopics_total [OF this] show "\<exists>pp'. markOffsetsIfPossible pp = Inr pp'"
    by (simp add: markOffsetsIfPossible_def)
next
  fix pp' t
  assume "markOffsetsIfPossible pp = Inr pp' \<and> t \<in> set (inputTopics (topicProcessor pp))"
  then have run: "markOffsetsTopics pp (inputTopics (topicProcessor pp)) = Inr pp'"
    and t: "t \<in> set (inputTopics (topicProcessor pp))"
    by (simp_all add: markOffsetsIfPossible_def)
  from markOffsetsTopics_Inr [OF run] t
  have q: "queue pp' t = dropWhile allAcksAreTrue (queue pp t)" by simp
  show "queue pp' t = [] \<or> (\<exists>m \<in> set (inFlightMessages (hd (queue pp' t))). \<not> ack m)"
  proof (cases "queue pp' t")
    case Nil
    then show ?thesis by simp
  next
    case (Cons g rest)
    with q have "dropWhile allAcksAreTrue (queue pp t) = g # rest" by simp
    then have "dropWhile allAcksAreTrue (queue pp t) \<noteq> []" by (simp only: list.distinct not_False_eq_True)
    from hd_dropWhile [OF this] q have "\<not> allAcksAreTrue (hd (queue pp' t))" by simp
    then show ?thesis by (auto simp: allAcksAreTrue_def list_all_iff)
  qed
qed

theorem markOffsetsIfPossible_head_witness:
  "\<not> isl (markOffsetsIfPossible (exProcessor False [exGroup 10 [True] False, exGroup 11 [False] False])) \<and>
   queue (projr (markOffsetsIfPossible
      (exProcessor False [exGroup 10 [True] False, exGroup 11 [False] False]))) ''t'' =
     [exGroup 11 [False] False] \<and>
   \<not> ack (hd (inFlightMessages (exGroup 11 [False] False)))"
proof -
  let ?pp = "exProcessor False [exGroup 10 [True] False, exGroup 11 [False] False]"
  have h: "set (inputTopics (topicProcessor ?pp)) \<subseteq> dom (offsetManagers ?pp)"
    by (simp add: ex_defs)
  from markOffsetsIfPossible_head [of ?pp] h obtain pp' where
    run: "markOffsetsIfPossible ?pp = Inr pp'" by blast
  have t: "''t'' \<in> set (inputTopics (topicProcessor ?pp))" by (simp add: ex_defs)
  from markOffsetsIfPossible_head [of ?pp] run t
  have "queue pp' ''t'' = [] \<or> (\<exists>m \<in> set (inFlightMessages (hd (queue pp' ''t''))). \<not> ack m)"
    by blast
  moreover have "queue (projr (markOffsetsIfPossible ?pp)) ''t'' = [exGroup 11 [False] False]"
    by (simp add: markOffsetsIfPossible_def markOffsetsForTopicIfPossible_def markOffsetsLoop.simps
      ex_defs queue_def setQueue_def allAcksAreTrue_def marks_def MarkOffset_def enumerate_eq_zip)
  ultimately show ?thesis using run by (simp add: ex_defs enumerate_eq_zip)
qed

text \<open>
  What the offset-advancing prune removes. When \<open>markOffsetsIfPossible\<close> has returned, it
  has removed from the queue of every input topic exactly the longest prefix of complete
  groups, and it has left every other queue as it was: a group that is popped is complete,
  and so is every group before it.
\<close>

theorem markOffsetsIfPossible_pops_complete_prefix:
  assumes "markOffsetsIfPossible pp = Inr pp'"
  shows "queue pp' t =
     (if t \<in> set (inputTopics (topicProcessor pp))
      then dropWhile allAcksAreTrue (queue pp t) else queue pp t)"
proof -
  from assms have "markOffsetsTopics pp (inputTopics (topicProcessor pp)) = Inr pp'"
    by (simp add: markOffsetsIfPossible_def)
  from markOffsetsTopics_Inr [OF this] show ?thesis by blast
qed

theorem markOffsetsIfPossible_pops_complete_prefix_witness:
  "\<not> isl (markOffsetsIfPossible (exProcessor False
      [exGroup 10 [True] False, exGroup 11 [] False, exGroup 12 [False] False, exGroup 13 [True] False])) \<and>
   queue (projr (markOffsetsIfPossible (exProcessor False
      [exGroup 10 [True] False, exGroup 11 [] False, exGroup 12 [False] False, exGroup 13 [True] False])))
     ''t'' = [exGroup 12 [False] False, exGroup 13 [True] False]"
proof -
  let ?pp = "exProcessor False
      [exGroup 10 [True] False, exGroup 11 [] False, exGroup 12 [False] False, exGroup 13 [True] False]"
  have "set (inputTopics (topicProcessor ?pp)) \<subseteq> dom (offsetManagers ?pp)"
    by (simp add: ex_defs)
  from markOffsetsTopics_total [OF this] obtain pp' where
    run: "markOffsetsIfPossible ?pp = Inr pp'" by (auto simp: markOffsetsIfPossible_def)
  from markOffsetsIfPossible_pops_complete_prefix [OF run, of "''t''"]
  have "queue pp' ''t'' = [exGroup 12 [False] False, exGroup 13 [True] False]"
    by (simp add: ex_defs queue_def allAcksAreTrue_def enumerate_eq_zip)
  with run show ?thesis by simp
qed

section \<open>Construction\<close>

lemma openTopics_result:
  assumes "\<forall>t\<in>set ts. ManagePartition tp t (word_of_int p) = Inr (pom t)"
    and "\<forall>t\<in>set ts. GetOffset tp t (word_of_int p) OffsetNewest = Inr (mo t)"
    and "\<forall>t\<in>set ts. \<forall>off. ConsumePartition tp t (word_of_int p) off = None"
  shows "\<exists>poms. openTopics tp p ts pcs poms0 =
     Inr (pcs @ map (\<lambda>t. \<lparr>pc_topic = t, pc_partition = word_of_int p,
                           pc_offset = (if NextOffset (pom t) \<le>s mo t then NextOffset (pom t)
                                        else OffsetNewest)\<rparr>) ts, poms) \<and>
     (\<forall>t. poms t = (if t \<in> set ts then Some (pom t) else poms0 t))"
  using assms
proof (induction ts arbitrary: pcs poms0)
  case Nil
  then show ?case by simp
next
  case (Cons t ts)
  let ?start = "if NextOffset (pom t) \<le>s mo t then NextOffset (pom t) else OffsetNewest"
  let ?c = "\<lparr>pc_topic = t, pc_partition = word_of_int p, pc_offset = ?start\<rparr>"
  from Cons.prems have rest:
    "\<forall>t\<in>set ts. ManagePartition tp t (word_of_int p) = Inr (pom t)"
    "\<forall>t\<in>set ts. GetOffset tp t (word_of_int p) OffsetNewest = Inr (mo t)"
    "\<forall>t\<in>set ts. \<forall>off. ConsumePartition tp t (word_of_int p) off = None" by simp_all
  from Cons.IH [OF rest, of "pcs @ [?c]" "poms0(t \<mapsto> pom t)"] obtain poms where
    run: "openTopics tp p ts (pcs @ [?c]) (poms0(t \<mapsto> pom t)) =
      Inr ((pcs @ [?c]) @ map (\<lambda>t. \<lparr>pc_topic = t, pc_partition = word_of_int p,
                           pc_offset = (if NextOffset (pom t) \<le>s mo t then NextOffset (pom t)
                                        else OffsetNewest)\<rparr>) ts, poms)"
    and poms: "\<forall>u. poms u = (if u \<in> set ts then Some (pom u) else (poms0(t \<mapsto> pom t)) u)"
    by blast
  have start: "(if mo t <s NextOffset (pom t) then OffsetNewest else NextOffset (pom t)) = ?start"
    using signed.not_less [of "mo t" "NextOffset (pom t)"] by auto
  from Cons.prems have here: "ManagePartition tp t (word_of_int p) = Inr (pom t)"
    "GetOffset tp t (word_of_int p) OffsetNewest = Inr (mo t)"
    "ConsumePartition tp t (word_of_int p) ?start = None" by simp_all
  have "openTopics tp p (t # ts) pcs poms0 =
      openTopics tp p ts (pcs @ [?c]) (poms0(t \<mapsto> pom t))"
    by (simp add: here Let_def start)
  with run poms show ?case by (intro exI [of _ poms]) auto
qed

lemma openTopics_Inr:
  "openTopics tp p ts pcs poms = Inr (pcs', poms') \<Longrightarrow>
     \<exists>cs. pcs' = pcs @ cs \<and> length cs = length ts \<and>
       (\<forall>i<length ts. \<exists>pom mo.
          ManagePartition tp (ts ! i) (word_of_int p) = Inr pom \<and>
          GetOffset tp (ts ! i) (word_of_int p) OffsetNewest = Inr mo \<and>
          cs ! i = \<lparr>pc_topic = ts ! i, pc_partition = word_of_int p,
                    pc_offset = (if NextOffset pom \<le>s mo then NextOffset pom else OffsetNewest)\<rparr>) \<and>
       dom poms' = dom poms \<union> set ts"
proof (induction ts arbitrary: pcs poms)
  case Nil
  then show ?case by simp
next
  case (Cons t ts)
  from Cons.prems obtain pom where pom: "ManagePartition tp t (word_of_int p) = Inr pom"
    by (cases "ManagePartition tp t (word_of_int p)") simp_all
  from Cons.prems pom obtain mo where mo: "GetOffset tp t (word_of_int p) OffsetNewest = Inr mo"
    by (cases "GetOffset tp t (word_of_int p) OffsetNewest") simp_all
  let ?start = "if NextOffset pom \<le>s mo then NextOffset pom else OffsetNewest"
  let ?c = "\<lparr>pc_topic = t, pc_partition = word_of_int p, pc_offset = ?start\<rparr>"
  have start: "(if mo <s NextOffset pom then OffsetNewest else NextOffset pom) = ?start"
    using signed.not_less [of mo "NextOffset pom"] by auto
  from Cons.prems pom mo have
    rest: "openTopics tp p ts (pcs @ [?c]) (poms(t \<mapsto> pom)) = Inr (pcs', poms')"
    by (cases "ConsumePartition tp t (word_of_int p) ?start") (simp_all add: Let_def start)
  from Cons.IH [OF rest] obtain cs where
    cs: "pcs' = (pcs @ [?c]) @ cs" "length cs = length ts"
      "\<forall>i<length ts. \<exists>pom mo.
          ManagePartition tp (ts ! i) (word_of_int p) = Inr pom \<and>
          GetOffset tp (ts ! i) (word_of_int p) OffsetNewest = Inr mo \<and>
          cs ! i = \<lparr>pc_topic = ts ! i, pc_partition = word_of_int p,
                    pc_offset = (if NextOffset pom \<le>s mo then NextOffset pom else OffsetNewest)\<rparr>"
      "dom poms' = dom (poms(t \<mapsto> pom)) \<union> set ts"
    by blast
  have "\<forall>i<length (t # ts). \<exists>pom mo.
          ManagePartition tp ((t # ts) ! i) (word_of_int p) = Inr pom \<and>
          GetOffset tp ((t # ts) ! i) (word_of_int p) OffsetNewest = Inr mo \<and>
          (?c # cs) ! i = \<lparr>pc_topic = (t # ts) ! i, pc_partition = word_of_int p,
                    pc_offset = (if NextOffset pom \<le>s mo then NextOffset pom else OffsetNewest)\<rparr>"
  proof (intro allI impI)
    fix i assume i: "i < length (t # ts)"
    show "\<exists>pom mo.
          ManagePartition tp ((t # ts) ! i) (word_of_int p) = Inr pom \<and>
          GetOffset tp ((t # ts) ! i) (word_of_int p) OffsetNewest = Inr mo \<and>
          (?c # cs) ! i = \<lparr>pc_topic = (t # ts) ! i, pc_partition = word_of_int p,
                    pc_offset = (if NextOffset pom \<le>s mo then NextOffset pom else OffsetNewest)\<rparr>"
    proof (cases i)
      case 0
      with pom mo show ?thesis by simp
    next
      case (Suc k)
      with i cs(3) show ?thesis by simp
    qed
  qed
  moreover have "pcs' = pcs @ (?c # cs)" using cs(1) by simp
  moreover have "length (?c # cs) = length (t # ts)" using cs(2) by simp
  moreover have "dom poms' = dom poms \<union> set (t # ts)" using cs(4) by auto
  ultimately show ?case by blast
qed

text \<open>
  Claim C2. When \<open>newPartitionProcessor\<close> has built a processor, its partition consumers
  stand in the order of the input topics, and the consumer of each input topic was opened
  with the persisted next offset if that is at most the newest offset of the log (as signed
  64-bit values), and with \<open>sarama.OffsetNewest\<close>, the request to start at the newest offset,
  if the persisted next offset is greater. Here \<open>pom\<close> is the offset manager the broker
  gives for the topic and \<open>mo\<close> the newest offset it reports. The processor holds an offset
  manager for each input topic. The construction succeeds whenever its broker calls do.
\<close>

theorem newPartitionProcessor_start_offsets:
  "(newPartitionProcessor tp mp p = Inr pp \<longrightarrow>
      length (partitionConsumers pp) = length (inputTopics tp) \<and>
      (\<forall>i<length (inputTopics tp). \<exists>pom mo.
          ManagePartition tp (inputTopics tp ! i) (word_of_int p) = Inr pom \<and>
          GetOffset tp (inputTopics tp ! i) (word_of_int p) OffsetNewest = Inr mo \<and>
          partitionConsumers pp ! i =
            \<lparr>pc_topic = inputTopics tp ! i, pc_partition = word_of_int p,
             pc_offset = (if NextOffset pom \<le>s mo then NextOffset pom else OffsetNewest)\<rparr>) \<and>
      set (inputTopics (topicProcessor pp)) \<subseteq> dom (offsetManagers pp)) \<and>
   (NewConsumerFromClient tp = None \<and>
    (\<forall>t\<in>set (inputTopics tp).
        (\<exists>pom. ManagePartition tp t (word_of_int p) = Inr pom) \<and>
        (\<exists>mo. GetOffset tp t (word_of_int p) OffsetNewest = Inr mo) \<and>
        (\<forall>off. ConsumePartition tp t (word_of_int p) off = None)) \<longrightarrow>
      (\<exists>pp. newPartitionProcessor tp mp p = Inr pp))"
proof (intro conjI impI)
  assume run: "newPartitionProcessor tp mp p = Inr pp"
  then obtain pcs poms where
    o: "openTopics tp p (inputTopics tp) [] Map.empty = Inr (pcs, poms)" and
    pp: "partitionConsumers pp = pcs" "offsetManagers pp = poms" "topicProcessor pp = tp"
    by (auto simp: newPartitionProcessor_def split: option.splits sum.splits)
  from openTopics_Inr [OF o] obtain cs where
    cs: "pcs = [] @ cs" "length cs = length (inputTopics tp)"
      "\<forall>i<length (inputTopics tp). \<exists>pom mo.
          ManagePartition tp (inputTopics tp ! i) (word_of_int p) = Inr pom \<and>
          GetOffset tp (inputTopics tp ! i) (word_of_int p) OffsetNewest = Inr mo \<and>
          cs ! i = \<lparr>pc_topic = inputTopics tp ! i, pc_partition = word_of_int p,
                    pc_offset = (if NextOffset pom \<le>s mo then NextOffset pom else OffsetNewest)\<rparr>"
      "dom poms = dom Map.empty \<union> set (inputTopics tp)"
    by blast
  from cs(1) pp(1) have eq: "partitionConsumers pp = cs" by simp
  show "length (partitionConsumers pp) = length (inputTopics tp)"
    unfolding eq by (rule cs(2))
  show "\<forall>i<length (inputTopics tp). \<exists>pom mo.
          ManagePartition tp (inputTopics tp ! i) (word_of_int p) = Inr pom \<and>
          GetOffset tp (inputTopics tp ! i) (word_of_int p) OffsetNewest = Inr mo \<and>
          partitionConsumers pp ! i =
            \<lparr>pc_topic = inputTopics tp ! i, pc_partition = word_of_int p,
             pc_offset = (if NextOffset pom \<le>s mo then NextOffset pom else OffsetNewest)\<rparr>"
    unfolding eq by (rule cs(3))
  show "set (inputTopics (topicProcessor pp)) \<subseteq> dom (offsetManagers pp)"
    using cs(4) pp(2,3) by simp
next
  assume a: "NewConsumerFromClient tp = None \<and>
    (\<forall>t\<in>set (inputTopics tp).
        (\<exists>pom. ManagePartition tp t (word_of_int p) = Inr pom) \<and>
        (\<exists>mo. GetOffset tp t (word_of_int p) OffsetNewest = Inr mo) \<and>
        (\<forall>off. ConsumePartition tp t (word_of_int p) off = None))"
  have b: "\<forall>t\<in>set (inputTopics tp). ManagePartition tp t (word_of_int p) =
      Inr (projr (ManagePartition tp t (word_of_int p)))"
    using a by auto
  have c: "\<forall>t\<in>set (inputTopics tp). GetOffset tp t (word_of_int p) OffsetNewest =
      Inr (projr (GetOffset tp t (word_of_int p) OffsetNewest))"
    using a by auto
  have d: "\<forall>t\<in>set (inputTopics tp). \<forall>off. ConsumePartition tp t (word_of_int p) off = None"
    using a by auto
  from openTopics_result [OF b c d, of "[]" Map.empty] a
  show "\<exists>pp. newPartitionProcessor tp mp p = Inr pp"
    by (auto simp: newPartitionProcessor_def)
qed

theorem newPartitionProcessor_start_offsets_witness:
  "\<not> isl (newPartitionProcessor (exTopicProcessor False) exUser 0) \<and>
   partitionConsumers (projr (newPartitionProcessor (exTopicProcessor False) exUser 0)) =
     [\<lparr>pc_topic = ''t'', pc_partition = 0, pc_offset = OffsetNewest\<rparr>]"
proof -
  let ?tp = "exTopicProcessor False"
  have "NewConsumerFromClient ?tp = None \<and>
    (\<forall>t\<in>set (inputTopics ?tp).
        (\<exists>pom. ManagePartition ?tp t (word_of_int 0) = Inr pom) \<and>
        (\<exists>mo. GetOffset ?tp t (word_of_int 0) OffsetNewest = Inr mo) \<and>
        (\<forall>off. ConsumePartition ?tp t (word_of_int 0) off = None))"
    by (simp add: ex_defs)
  with newPartitionProcessor_start_offsets [of ?tp exUser 0] obtain pp where
    run: "newPartitionProcessor ?tp exUser 0 = Inr pp" by blast
  from newPartitionProcessor_start_offsets [of ?tp exUser 0 pp] run
  have len: "length (partitionConsumers pp) = length (inputTopics ?tp)"
    and at: "\<forall>i<length (inputTopics ?tp). \<exists>pom mo.
          ManagePartition ?tp (inputTopics ?tp ! i) (word_of_int 0) = Inr pom \<and>
          GetOffset ?tp (inputTopics ?tp ! i) (word_of_int 0) OffsetNewest = Inr mo \<and>
          partitionConsumers pp ! i =
            \<lparr>pc_topic = inputTopics ?tp ! i, pc_partition = word_of_int 0,
             pc_offset = (if NextOffset pom \<le>s mo then NextOffset pom else OffsetNewest)\<rparr>"
    by blast+
  from at have "partitionConsumers pp ! 0 =
      \<lparr>pc_topic = ''t'', pc_partition = 0, pc_offset = OffsetNewest\<rparr>"
    by (auto simp: ex_defs)
  moreover from len have "length (partitionConsumers pp) = 1" by (simp add: ex_defs)
  ultimately have "partitionConsumers pp =
      [\<lparr>pc_topic = ''t'', pc_partition = 0, pc_offset = OffsetNewest\<rparr>]"
    by (cases "partitionConsumers pp") auto
  with run show ?thesis by simp
qed

section \<open>Processing one consumer message\<close>

lemma commit_commit: "commit (commit pp) = commit pp"
  by (simp add: commit_def)

lemma Process_result:
  "Process cs (s, pp) =
     (s\<lparr>producerMessages := producerMessages s @
          map (withMetadata (s_incomingMessage s)) (submitted cs)\<rparr>,
      if Commit \<in> set cs then commit pp else pp)"
proof (induction cs arbitrary: s pp)
  case Nil
  then show ?case by simp
next
  case (Cons c cs)
  then show ?case by (cases c) (simp_all add: send_def withMetadata_def commit_commit)
qed
lemma process_closed:
  assumes "TopicSerdes (config (topicProcessor pp)) (cm_Topic cm) = Some serde"
  shows "process pp a cm =
     (let im = \<lparr>Topic = cm_Topic cm, Partition = sint (cm_Partition cm), Offset = cm_Offset cm,
                   Key = KeySerde serde (cm_Key cm), Value = ValueSerde serde (cm_Value cm),
                   Timestamp = cm_Timestamp cm\<rparr>;
          calls = messageProcessor pp im;
          sent = map (withMetadata (Ptr a im)) (submitted calls);
          g = \<lparr>incomingMessage = Ptr a im,
               inFlightMessages = map (\<lambda>m. \<lparr>msg = m, ack = False\<rparr>) sent,
               committed = (Commit \<in> set calls)\<rparr>
      in Inr (setQueue (pp\<lparr>commitNextInFlightMessageGroup := (Commit \<in> set calls)\<rparr>)
                (cm_Topic cm) (queue pp (cm_Topic cm) @ [g]), sent))"
  using assms
  by (simp add: process_def Let_def Process_result newSender_def createInFlightMessageGroup_def
      commit_def)

text \<open>
  Claim C6. For a consumer message whose topic has a Serde, \<open>process\<close> returns and: the
  \<open>committed\<close> flag of the group it builds is true exactly when the user's processor asked
  for a commit during this call, whatever \<open>commitNextInFlightMessageGroup\<close> was before (it
  is reset before the user's processor runs and read after it); that one group, holding the
  pointer to the incoming message and one unacknowledged entry per submitted message, is
  appended at the end of the queue of the message's topic; no other queue changes; and the
  messages returned are the submitted ones, in submission order, each with its metadata
  pointing to the incoming message.
\<close>

theorem process_appends_group:
  assumes "TopicSerdes (config (topicProcessor pp)) (cm_Topic cm) = Some serde"
  shows "let im = \<lparr>Topic = cm_Topic cm, Partition = sint (cm_Partition cm), Offset = cm_Offset cm,
                   Key = KeySerde serde (cm_Key cm), Value = ValueSerde serde (cm_Value cm),
                   Timestamp = cm_Timestamp cm\<rparr>;
             calls = messageProcessor pp im;
             sent = map (withMetadata (Ptr a im)) (submitted calls);
             g = \<lparr>incomingMessage = Ptr a im,
                  inFlightMessages = map (\<lambda>m. \<lparr>msg = m, ack = False\<rparr>) sent,
                  committed = (Commit \<in> set calls)\<rparr>
         in \<exists>pp'. process pp a cm = Inr (pp', sent) \<and>
              queue pp' (cm_Topic cm) = queue pp (cm_Topic cm) @ [g] \<and>
              (\<forall>u. u \<noteq> cm_Topic cm \<longrightarrow> queue pp' u = queue pp u) \<and>
              commitNextInFlightMessageGroup pp' = (Commit \<in> set calls) \<and>
              offsetManagers pp' = offsetManagers pp \<and>
              topicProcessor pp' = topicProcessor pp"
  unfolding process_closed [OF assms] Let_def
  by (simp add: queue_setQueue setQueue_fields)

theorem process_appends_group_witness:
  "\<not> isl (process (exProcessor False [exGroup 13 [False] False]) 99 exMessage) \<and>
   map committed (queue (fst (projr (process (exProcessor False [exGroup 13 [False] False]) 99
       exMessage))) ''t'') = [False, True] \<and>
   map (\<lambda>g. map (\<lambda>m. (addr (msg m), ack m)) (inFlightMessages g))
     (queue (fst (projr (process (exProcessor False [exGroup 13 [False] False]) 99
       exMessage))) ''t'') = [[(1000, False)], [(7, False), (8, False)]] \<and>
   map addr (snd (projr (process (exProcessor False [exGroup 13 [False] False]) 99 exMessage))) =
     [7, 8] \<and>
   commitNextInFlightMessageGroup (exProcessor False []) \<and>
   map committed (queue (fst (projr (process
       ((exProcessor False [])\<lparr>messageProcessor := (\<lambda>im. [])\<rparr>) 99 exMessage))) ''t'') = [False]"
proof -
  let ?pp = "exProcessor False [exGroup 13 [False] False]"
  let ?quiet = "(exProcessor False [])\<lparr>messageProcessor := (\<lambda>im. [])\<rparr>"
  have h: "TopicSerdes (config (topicProcessor ?pp)) (cm_Topic exMessage) =
      Some \<lparr>KeySerde = id, ValueSerde = id\<rparr>"
    by (simp add: ex_defs)
  have h': "TopicSerdes (config (topicProcessor ?quiet)) (cm_Topic exMessage) =
      Some \<lparr>KeySerde = id, ValueSerde = id\<rparr>"
    by (simp add: ex_defs)
  from process_appends_group [OF h, of 99] process_appends_group [OF h', of 99] show ?thesis
    by (auto simp: Let_def ex_defs queue_def withMetadata_def enumerate_eq_zip)
qed

section \<open>Readiness\<close>

lemma process_Inr:
  assumes "process pp a cm = Inr (pp', out)"
  shows "\<exists>g. queue pp' (cm_Topic cm) = queue pp (cm_Topic cm) @ [g]"
    and "topicProcessor pp' = topicProcessor pp"
proof -
  from assms obtain serde where
    s: "TopicSerdes (config (topicProcessor pp)) (cm_Topic cm) = Some serde"
    by (cases "TopicSerdes (config (topicProcessor pp)) (cm_Topic cm)")
       (simp_all add: process_def)
  from assms [unfolded process_closed [OF s] Let_def]
  obtain g b where "pp' = setQueue (pp\<lparr>commitNextInFlightMessageGroup := b\<rparr>)
      (cm_Topic cm) (queue pp (cm_Topic cm) @ [g])"
    by blast
  then show "\<exists>g. queue pp' (cm_Topic cm) = queue pp (cm_Topic cm) @ [g]"
    and "topicProcessor pp' = topicProcessor pp"
    by (simp_all add: queue_setQueue setQueue_fields)
qed

text \<open>
  Claim C3. \<open>isReadyForMessage\<close> is true exactly when the length of the queue of the
  message's topic is at most \<open>MaxInFlightMessageGroups\<close>. So a processor whose queue holds
  exactly that many groups is still ready, \<open>process\<close> then takes the queue to one more than
  the bound, and only there is the answer false. With a bound of 0 the processor is ready
  exactly when the queue is empty.
\<close>

theorem isReadyForMessage_bound:
  "(isReadyForMessage pp m \<longleftrightarrow>
      int (length (queue pp (cm_Topic m))) \<le> MaxInFlightMessageGroups (config (topicProcessor pp))) \<and>
   (int (length (queue pp (cm_Topic m))) = MaxInFlightMessageGroups (config (topicProcessor pp))
      \<longrightarrow> isReadyForMessage pp m \<and>
          (\<forall>a pp' out. process pp a m = Inr (pp', out) \<longrightarrow>
             int (length (queue pp' (cm_Topic m))) =
               MaxInFlightMessageGroups (config (topicProcessor pp)) + 1 \<and>
             \<not> isReadyForMessage pp' m)) \<and>
   (MaxInFlightMessageGroups (config (topicProcessor pp)) = 0 \<longrightarrow>
      (isReadyForMessage pp m \<longleftrightarrow> queue pp (cm_Topic m) = []))"
proof (intro conjI impI allI)
  fix a pp' out
  assume len: "int (length (queue pp (cm_Topic m))) =
      MaxInFlightMessageGroups (config (topicProcessor pp))"
    and run: "process pp a m = Inr (pp', out)"
  from process_Inr [OF run] len
  show "int (length (queue pp' (cm_Topic m))) =
      MaxInFlightMessageGroups (config (topicProcessor pp)) + 1"
    by auto
  with process_Inr(2) [OF run] show "\<not> isReadyForMessage pp' m"
    by (simp add: isReadyForMessage_def)
qed (auto simp: isReadyForMessage_def)

theorem isReadyForMessage_bound_witness:
  "isReadyForMessage (exProcessor False (replicate 4 (exGroup 10 [False] False))) exMessage \<and>
   \<not> isl (process (exProcessor False (replicate 4 (exGroup 10 [False] False))) 99 exMessage) \<and>
   length (queue (fst (projr (process (exProcessor False (replicate 4 (exGroup 10 [False] False)))
       99 exMessage))) ''t'') = 5 \<and>
   \<not> isReadyForMessage (fst (projr (process (exProcessor False
       (replicate 4 (exGroup 10 [False] False))) 99 exMessage))) exMessage"
proof -
  let ?pp = "exProcessor False (replicate 4 (exGroup 10 [False] False))"
  have len: "int (length (queue ?pp (cm_Topic exMessage))) =
      MaxInFlightMessageGroups (config (topicProcessor ?pp))"
    by (simp add: ex_defs queue_def)
  have s: "TopicSerdes (config (topicProcessor ?pp)) (cm_Topic exMessage) =
      Some \<lparr>KeySerde = id, ValueSerde = id\<rparr>"
    by (simp add: ex_defs)
  from process_closed [OF s, of 99] obtain pp' out where
    run: "process ?pp 99 exMessage = Inr (pp', out)" by (simp add: Let_def)
  from isReadyForMessage_bound [of ?pp exMessage] len run
  have "isReadyForMessage ?pp exMessage \<and>
      int (length (queue pp' (cm_Topic exMessage))) =
        MaxInFlightMessageGroups (config (topicProcessor ?pp)) + 1 \<and>
      \<not> isReadyForMessage pp' exMessage"
    by blast
  with run show ?thesis by (simp add: ex_defs)
qed

section \<open>The interior prune\<close>

lemma prune_short:
  "length (queue pp t) \<le> 1 \<Longrightarrow> pruneInFlightMessageGroupsForTopic pp t = pp"
  by (subst pruneInFlightMessageGroupsForTopic.simps) simp

lemma prune_Cons2:
  "queue pp t = g # h # rest \<Longrightarrow> pruneInFlightMessageGroupsForTopic pp t =
     (if \<not> allAcksAreTrue g \<or> \<not> allAcksAreTrue h then pp
      else pruneInFlightMessageGroupsForTopic (setQueue pp t (h # rest)) t)"
  by (subst pruneInFlightMessageGroupsForTopic.simps) (simp add: Let_def)

lemma prune_closed:
  "queue pp t = q \<Longrightarrow> pruneInFlightMessageGroupsForTopic pp t =
     (if pruneCount q = 0 then pp else setQueue pp t (drop (pruneCount q) q))"
proof (induction q arbitrary: pp rule: pruneCount.induct)
  case (1 g h rest)
  have q: "queue (setQueue pp t (h # rest)) t = h # rest" by (simp add: queue_setQueue)
  show ?case
  proof (cases "allAcksAreTrue g \<and> allAcksAreTrue h")
    case True
    with "1.IH" [OF True q] prune_Cons2 [OF "1.prems"] show ?thesis
      by (simp add: setQueue_setQueue)
  next
    case False
    with prune_Cons2 [OF "1.prems"] show ?thesis by auto
  qed
qed (simp_all add: prune_short)

lemma pruneCount_less: "q \<noteq> [] \<Longrightarrow> pruneCount q < length q"
  by (induction q rule: pruneCount.induct) auto

lemma pruneCount_removed:
  "i < pruneCount q \<Longrightarrow> allAcksAreTrue (q ! i) \<and> allAcksAreTrue (q ! Suc i)"
proof (induction q arbitrary: i rule: pruneCount.induct)
  case (1 g h rest)
  then show ?case by (cases i) (auto split: if_splits)
qed simp_all

lemma pruneCount_stops:
  "\<not> (1 < length (drop (pruneCount q) q) \<and> allAcksAreTrue (drop (pruneCount q) q ! 0) \<and>
       allAcksAreTrue (drop (pruneCount q) q ! 1))"
  by (induction q rule: pruneCount.induct) auto

lemma pruneCount_drop: "pruneCount (drop (pruneCount q) q) = 0"
  by (induction q rule: pruneCount.induct) auto

lemma prune_queue:
  "queue (pruneInFlightMessageGroupsForTopic pp t) u =
     (if u = t then drop (pruneCount (queue pp t)) (queue pp t) else queue pp u)"
  by (simp add: prune_closed [OF refl] queue_setQueue)

lemma prune_fields:
  "topicProcessor (pruneInFlightMessageGroupsForTopic pp t) = topicProcessor pp"
  "offsetManagers (pruneInFlightMessageGroupsForTopic pp t) = offsetManagers pp"
  "partitionConsumers (pruneInFlightMessageGroupsForTopic pp t) = partitionConsumers pp"
  "pp_inputTopics (pruneInFlightMessageGroupsForTopic pp t) = pp_inputTopics pp"
  "partition (pruneInFlightMessageGroupsForTopic pp t) = partition pp"
  "commitNextInFlightMessageGroup (pruneInFlightMessageGroupsForTopic pp t) =
     commitNextInFlightMessageGroup pp"
  by (simp_all add: prune_closed [OF refl] setQueue_fields)

lemma prune_topics_queue:
  "queue (foldl pruneInFlightMessageGroupsForTopic pp ts) u =
     (if u \<in> set ts then drop (pruneCount (queue pp u)) (queue pp u) else queue pp u)"
proof (induction ts arbitrary: pp)
  case Nil
  then show ?case by simp
next
  case (Cons t ts)
  show ?case by (simp add: Cons.IH prune_queue pruneCount_drop)
qed

lemma prune_topics_fields:
  "topicProcessor (foldl pruneInFlightMessageGroupsForTopic pp ts) = topicProcessor pp"
  "offsetManagers (foldl pruneInFlightMessageGroupsForTopic pp ts) = offsetManagers pp"
  "partitionConsumers (foldl pruneInFlightMessageGroupsForTopic pp ts) = partitionConsumers pp"
  "pp_inputTopics (foldl pruneInFlightMessageGroupsForTopic pp ts) = pp_inputTopics pp"
  "partition (foldl pruneInFlightMessageGroupsForTopic pp ts) = partition pp"
  "commitNextInFlightMessageGroup (foldl pruneInFlightMessageGroupsForTopic pp ts) =
     commitNextInFlightMessageGroup pp"
  by (induction ts arbitrary: pp) (simp_all add: prune_fields)

lemma prune_topics_fixed:
  "\<forall>t \<in> set ts. pruneCount (queue pp t) = 0 \<Longrightarrow>
     foldl pruneInFlightMessageGroupsForTopic pp ts = pp"
  by (induction ts) (simp_all add: prune_closed [OF refl])

lemmas prune_eval = onProcessCompleted_def pruneInFlightMessageGroups_def
  pruneInFlightMessageGroupsForTopic.simps queue_def setQueue_def allAcksAreTrue_def
  enumerate_eq_zip

text \<open>
  Claim C5. \<open>onProcessCompleted\<close> leaves of every queue a suffix: it drops \<open>n\<close> groups from
  the head, and each dropped group was complete and followed by a complete group. A queue
  that is not empty stays not empty. For an input topic the dropping goes on as long as it
  can: what remains has at most one group, or its first or second group is incomplete. The
  queue of any other topic is left as it is. No \<open>MarkOffset\<close> call is made: the offset
  managers are as before, and so are the configuration and the commit flag.
\<close>

theorem onProcessCompleted_prunes:
  "offsetManagers (onProcessCompleted pp) = offsetManagers pp \<and>
   topicProcessor (onProcessCompleted pp) = topicProcessor pp \<and>
   commitNextInFlightMessageGroup (onProcessCompleted pp) = commitNextInFlightMessageGroup pp \<and>
   (\<forall>t. let q = queue pp t; q' = queue (onProcessCompleted pp) t
        in \<exists>n. q' = drop n q \<and>
               (\<forall>i<n. allAcksAreTrue (q ! i) \<and> allAcksAreTrue (q ! Suc i)) \<and>
               (q \<noteq> [] \<longrightarrow> n < length q \<and> q' \<noteq> []) \<and>
               (t \<in> set (inputTopics (topicProcessor pp)) \<longrightarrow>
                  \<not> (1 < length q' \<and> allAcksAreTrue (q' ! 0) \<and> allAcksAreTrue (q' ! 1))) \<and>
               (t \<notin> set (inputTopics (topicProcessor pp)) \<longrightarrow> n = 0))"
proof (intro conjI allI)
  fix t
  let ?q = "queue pp t"
  let ?n = "if t \<in> set (inputTopics (topicProcessor pp)) then pruneCount ?q else 0"
  have q': "queue (onProcessCompleted pp) t = drop ?n ?q"
    by (simp add: onProcessCompleted_def pruneInFlightMessageGroups_def prune_topics_queue)
  have a: "\<forall>i<?n. allAcksAreTrue (?q ! i) \<and> allAcksAreTrue (?q ! Suc i)"
    using pruneCount_removed [of _ ?q] by simp
  have b: "?q \<noteq> [] \<longrightarrow> ?n < length ?q \<and> drop ?n ?q \<noteq> []"
    using pruneCount_less [of ?q] by (cases "?q = []") auto
  have c: "t \<in> set (inputTopics (topicProcessor pp)) \<longrightarrow>
      \<not> (1 < length (drop ?n ?q) \<and> allAcksAreTrue (drop ?n ?q ! 0) \<and>
         allAcksAreTrue (drop ?n ?q ! 1))"
  proof
    assume t: "t \<in> set (inputTopics (topicProcessor pp))"
    show "\<not> (1 < length (drop ?n ?q) \<and>
        allAcksAreTrue (drop ?n ?q ! 0) \<and> allAcksAreTrue (drop ?n ?q ! 1))"
      unfolding if_P [OF t] by (rule pruneCount_stops)
  qed
  have d: "t \<notin> set (inputTopics (topicProcessor pp)) \<longrightarrow> ?n = 0" by simp
  show "let q = queue pp t; q' = queue (onProcessCompleted pp) t
        in \<exists>n. q' = drop n q \<and>
               (\<forall>i<n. allAcksAreTrue (q ! i) \<and> allAcksAreTrue (q ! Suc i)) \<and>
               (q \<noteq> [] \<longrightarrow> n < length q \<and> q' \<noteq> []) \<and>
               (t \<in> set (inputTopics (topicProcessor pp)) \<longrightarrow>
                  \<not> (1 < length q' \<and> allAcksAreTrue (q' ! 0) \<and> allAcksAreTrue (q' ! 1))) \<and>
               (t \<notin> set (inputTopics (topicProcessor pp)) \<longrightarrow> n = 0)"
    unfolding Let_def q' using a b c d by (intro exI [of _ ?n]) blast
qed (simp_all add: onProcessCompleted_def pruneInFlightMessageGroups_def prune_topics_fields)

theorem onProcessCompleted_prunes_witness:
  "queue (exProcessor False [exGroup 10 [True] False, exGroup 11 [] False,
                            exGroup 12 [True, True] False, exGroup 13 [False] False]) ''t'' \<noteq> [] \<and>
   ''t'' \<in> set (inputTopics (topicProcessor (exProcessor False
        [exGroup 10 [True] False, exGroup 11 [] False,
         exGroup 12 [True, True] False, exGroup 13 [False] False]))) \<and>
   queue (onProcessCompleted (exProcessor False
        [exGroup 10 [True] False, exGroup 11 [] False,
         exGroup 12 [True, True] False, exGroup 13 [False] False])) ''t'' =
     [exGroup 12 [True, True] False, exGroup 13 [False] False] \<and>
   marks (onProcessCompleted (exProcessor False
        [exGroup 10 [True] False, exGroup 11 [] False,
         exGroup 12 [True, True] False, exGroup 13 [False] False])) ''t'' = []"
proof -
  let ?pp = "exProcessor False [exGroup 10 [True] False, exGroup 11 [] False,
         exGroup 12 [True, True] False, exGroup 13 [False] False]"
  from onProcessCompleted_prunes [of ?pp]
  have "offsetManagers (onProcessCompleted ?pp) = offsetManagers ?pp" by blast
  then have "marks (onProcessCompleted ?pp) ''t'' = marks ?pp ''t''" by (simp add: marks_def)
  then have "marks (onProcessCompleted ?pp) ''t'' = []" by (simp add: marks_def ex_defs)
  moreover have "queue (onProcessCompleted ?pp) ''t'' =
      [exGroup 12 [True, True] False, exGroup 13 [False] False]"
    by (simp add: ex_defs prune_eval)
  ultimately show ?thesis by (simp add: ex_defs queue_def)
qed

text \<open>
  Claim C8. Running \<open>onProcessCompleted\<close> twice in succession gives the same processor
  state as running it once: the in-flight queues and everything else.
\<close>

theorem onProcessCompleted_idempotent:
  "onProcessCompleted (onProcessCompleted pp) = onProcessCompleted pp"
proof -
  let ?ts = "inputTopics (topicProcessor pp)"
  let ?pp' = "foldl pruneInFlightMessageGroupsForTopic pp ?ts"
  have "\<forall>t \<in> set ?ts. pruneCount (queue ?pp' t) = 0"
    by (simp add: prune_topics_queue pruneCount_drop)
  then have "foldl pruneInFlightMessageGroupsForTopic ?pp' ?ts = ?pp'"
    by (rule prune_topics_fixed)
  then show ?thesis
    by (simp add: onProcessCompleted_def pruneInFlightMessageGroups_def prune_topics_fields)
qed

theorem onProcessCompleted_idempotent_witness:
  "queue (onProcessCompleted (onProcessCompleted (exProcessor False
        [exGroup 10 [True] False, exGroup 11 [] False, exGroup 12 [False] False]))) ''t'' =
     [exGroup 11 [] False, exGroup 12 [False] False]"
  unfolding onProcessCompleted_idempotent
  by (simp add: ex_defs prune_eval)

section \<open>Producer acknowledgements\<close>

lemma ackInFlightMessage_Some:
  "ackInFlightMessage ms s = Some ms' \<Longrightarrow>
     \<exists>j<length ms. ptr_eq (msg (ms ! j)) s \<and> (\<forall>k<j. \<not> ptr_eq (msg (ms ! k)) s) \<and>
        ms' = ms[j := (ms ! j)\<lparr>ack := True\<rparr>]"
proof (induction ms arbitrary: ms')
  case Nil
  then show ?case by simp
next
  case (Cons m ms)
  show ?case
  proof (cases "ptr_eq (msg m) s")
    case True
    with Cons.prems have "ms' = (m # ms)[0 := ((m # ms) ! 0)\<lparr>ack := True\<rparr>]" by auto
    with True show ?thesis by (intro exI [of _ 0]) simp
  next
    case False
    with Cons.prems obtain r where r: "ackInFlightMessage ms s = Some r" and ms': "ms' = m # r"
      by auto
    from Cons.IH [OF r] obtain j where j: "j < length ms" "ptr_eq (msg (ms ! j)) s"
      "\<forall>k<j. \<not> ptr_eq (msg (ms ! k)) s" "r = ms[j := (ms ! j)\<lparr>ack := True\<rparr>]" by blast
    have "\<forall>k<Suc j. \<not> ptr_eq (msg ((m # ms) ! k)) s"
    proof (intro allI impI)
      fix k assume "k < Suc j"
      with j(3) False show "\<not> ptr_eq (msg ((m # ms) ! k)) s" by (cases k) auto
    qed
    with j ms' show ?thesis by (intro exI [of _ "Suc j"]) simp
  qed
qed

lemma ackGroup_Inr:
  "ackGroup gs im s = Inr gs' \<Longrightarrow>
     \<exists>i j. i < length gs \<and> j < length (inFlightMessages (gs ! i)) \<and>
        ptr_eq (incomingMessage (gs ! i)) im \<and>
        (\<forall>k<i. \<not> ptr_eq (incomingMessage (gs ! k)) im) \<and>
        ptr_eq (msg (inFlightMessages (gs ! i) ! j)) s \<and>
        (\<forall>k<j. \<not> ptr_eq (msg (inFlightMessages (gs ! i) ! k)) s) \<and>
        gs' = gs[i := (gs ! i)\<lparr>inFlightMessages :=
                 (inFlightMessages (gs ! i))[j := (inFlightMessages (gs ! i) ! j)\<lparr>ack := True\<rparr>]\<rparr>]"
proof (induction gs arbitrary: gs')
  case Nil
  then show ?case by simp
next
  case (Cons g gs)
  show ?case
  proof (cases "ptr_eq (incomingMessage g) im")
    case True
    with Cons.prems obtain ms' where a: "ackInFlightMessage (inFlightMessages g) s = Some ms'"
      and gs': "gs' = g\<lparr>inFlightMessages := ms'\<rparr> # gs"
      by (auto split: option.splits)
    from ackInFlightMessage_Some [OF a] obtain j where
      j: "j < length (inFlightMessages g)" "ptr_eq (msg (inFlightMessages g ! j)) s"
        "\<forall>k<j. \<not> ptr_eq (msg (inFlightMessages g ! k)) s"
        "ms' = (inFlightMessages g)[j := (inFlightMessages g ! j)\<lparr>ack := True\<rparr>]" by blast
    with True gs' show ?thesis by (intro exI [of _ 0] exI [of _ j]) simp
  next
    case False
    with Cons.prems obtain r where r: "ackGroup gs im s = Inr r" and gs': "gs' = g # r"
      by (auto split: sum.splits)
    from Cons.IH [OF r] obtain i j where
      ij: "i < length gs" "j < length (inFlightMessages (gs ! i))"
        "ptr_eq (incomingMessage (gs ! i)) im"
        "\<forall>k<i. \<not> ptr_eq (incomingMessage (gs ! k)) im"
        "ptr_eq (msg (inFlightMessages (gs ! i) ! j)) s"
        "\<forall>k<j. \<not> ptr_eq (msg (inFlightMessages (gs ! i) ! k)) s"
        "r = gs[i := (gs ! i)\<lparr>inFlightMessages :=
                 (inFlightMessages (gs ! i))[j := (inFlightMessages (gs ! i) ! j)\<lparr>ack := True\<rparr>]\<rparr>]"
      by blast
    have "\<forall>k<Suc i. \<not> ptr_eq (incomingMessage ((g # gs) ! k)) im"
    proof (intro allI impI)
      fix k assume "k < Suc i"
      with ij(4) False show "\<not> ptr_eq (incomingMessage ((g # gs) ! k)) im" by (cases k) auto
    qed
    with ij gs' show ?thesis by (intro exI [of _ "Suc i"] exI [of _ j]) simp
  qed
qed


lemma ackInFlightMessage_first:
  "j < length ms \<Longrightarrow> ptr_eq (msg (ms ! j)) s \<Longrightarrow> \<forall>k<j. \<not> ptr_eq (msg (ms ! k)) s \<Longrightarrow>
     ackInFlightMessage ms s = Some (ms[j := (ms ! j)\<lparr>ack := True\<rparr>])"
proof (induction ms arbitrary: j)
  case Nil
  then show ?case by simp
next
  case (Cons m ms)
  show ?case
  proof (cases j)
    case 0
    with Cons.prems show ?thesis by simp
  next
    case (Suc j')
    with Cons.prems have "\<not> ptr_eq (msg m) s" by auto
    moreover from Suc Cons.prems have "\<forall>k<j'. \<not> ptr_eq (msg (ms ! k)) s" by auto
    with Suc Cons.prems have "ackInFlightMessage ms s = Some (ms[j' := (ms ! j')\<lparr>ack := True\<rparr>])"
      by (intro Cons.IH) auto
    ultimately show ?thesis using Suc by simp
  qed
qed

lemma ackGroup_first:
  "i < length gs \<Longrightarrow> ptr_eq (incomingMessage (gs ! i)) im \<Longrightarrow>
   \<forall>k<i. \<not> ptr_eq (incomingMessage (gs ! k)) im \<Longrightarrow>
   ackInFlightMessage (inFlightMessages (gs ! i)) s = Some ms' \<Longrightarrow>
     ackGroup gs im s = Inr (gs[i := (gs ! i)\<lparr>inFlightMessages := ms'\<rparr>])"
proof (induction gs arbitrary: i)
  case Nil
  then show ?case by simp
next
  case (Cons g gs)
  show ?case
  proof (cases i)
    case 0
    with Cons.prems show ?thesis by simp
  next
    case (Suc i')
    with Cons.prems have "\<not> ptr_eq (incomingMessage g) im" by auto
    moreover from Suc Cons.prems have "\<forall>k<i'. \<not> ptr_eq (incomingMessage (gs ! k)) im" by auto
    with Suc Cons.prems have "ackGroup gs im s = Inr (gs[i' := (gs ! i')\<lparr>inFlightMessages := ms'\<rparr>])"
      by (intro Cons.IH) auto
    ultimately show ?thesis using Suc by simp
  qed
qed

text \<open>
  Claim C7. \<open>onProducerAck\<close> returns exactly when the sent message carries a pointer to an
  incoming message, a group of that incoming message is in the queue of its topic, and the
  first such group holds an in-flight message whose \<open>msg\<close> is the sent message. The state
  it returns is the state before with one change: in that group, at index \<open>i\<close> of the
  queue, the first such in-flight message, at index \<open>j\<close>, has \<open>ack = true\<close>. Every other
  ack flag, every \<open>committed\<close> flag, every queue and every other field is as before.
\<close>

theorem onProducerAck_sets_one_ack:
  "onProducerAck pp sentMessage = Inr pp' \<longleftrightarrow>
     (\<exists>im i j. Metadata (deref sentMessage) = Some im \<and>
        (let q = queue pp (Topic (deref im));
             ms = inFlightMessages (q ! i)
         in i < length q \<and> j < length ms \<and>
            ptr_eq (incomingMessage (q ! i)) im \<and>
            (\<forall>k<i. \<not> ptr_eq (incomingMessage (q ! k)) im) \<and>
            ptr_eq (msg (ms ! j)) sentMessage \<and>
            (\<forall>k<j. \<not> ptr_eq (msg (ms ! k)) sentMessage) \<and>
            pp' = setQueue pp (Topic (deref im))
                    (q[i := (q ! i)\<lparr>inFlightMessages := ms[j := (ms ! j)\<lparr>ack := True\<rparr>]\<rparr>])))"
  (is "?L \<longleftrightarrow> ?R")
proof
  assume ?L
  then obtain im q' where im: "Metadata (deref sentMessage) = Some im"
    and a: "ackGroup (queue pp (Topic (deref im))) im sentMessage = Inr q'"
    and pp': "pp' = setQueue pp (Topic (deref im)) q'"
    by (auto simp: onProducerAck_def split: option.splits sum.splits)
  from ackGroup_Inr [OF a] pp' im show ?R unfolding Let_def by blast
next
  assume ?R
  then obtain im i j where im: "Metadata (deref sentMessage) = Some im"
    and i: "i < length (queue pp (Topic (deref im)))"
    and j: "j < length (inFlightMessages (queue pp (Topic (deref im)) ! i))"
    and gi: "ptr_eq (incomingMessage (queue pp (Topic (deref im)) ! i)) im"
    and gk: "\<forall>k<i. \<not> ptr_eq (incomingMessage (queue pp (Topic (deref im)) ! k)) im"
    and mj: "ptr_eq (msg (inFlightMessages (queue pp (Topic (deref im)) ! i) ! j)) sentMessage"
    and mk: "\<forall>k<j. \<not> ptr_eq (msg (inFlightMessages (queue pp (Topic (deref im)) ! i) ! k)) sentMessage"
    and pp': "pp' = setQueue pp (Topic (deref im))
        ((queue pp (Topic (deref im)))[i := (queue pp (Topic (deref im)) ! i)
           \<lparr>inFlightMessages := (inFlightMessages (queue pp (Topic (deref im)) ! i))
              [j := (inFlightMessages (queue pp (Topic (deref im)) ! i) ! j)\<lparr>ack := True\<rparr>]\<rparr>])"
    unfolding Let_def by blast
  from ackGroup_first [OF i gi gk ackInFlightMessage_first [OF j mj mk]] im pp'
  show ?L by (simp add: onProducerAck_def)
qed

theorem onProducerAck_sets_one_ack_witness:
  "\<not> isl (onProducerAck (exProcessor False [exGroup 10 [False, False] False,
                                           exGroup 11 [False] False]) (exProduced 10 1)) \<and>
   queue (projr (onProducerAck (exProcessor False [exGroup 10 [False, False] False,
                                                 exGroup 11 [False] False]) (exProduced 10 1))) ''t'' =
     [exGroup 10 [False, True] False, exGroup 11 [False] False]"
proof -
  let ?pp = "exProcessor False [exGroup 10 [False, False] False, exGroup 11 [False] False]"
  let ?pp' = "setQueue ?pp ''t'' [exGroup 10 [False, True] False, exGroup 11 [False] False]"
  have "onProducerAck ?pp (exProduced 10 1) = Inr ?pp'"
    unfolding onProducerAck_sets_one_ack
    by (intro exI [of _ "exIncoming 10"] exI [of _ 0] exI [of _ 1])
       (simp add: ex_defs Let_def queue_def ptr_eq_def enumerate_eq_zip)
  then show ?thesis by (simp add: queue_def setQueue_def)
qed

section \<open>Keys of the Elasticsearch store\<close>

lemma length_Split: "length (Split s sep) = Suc (length (filter (\<lambda>c. c = sep) s))"
  by (induction s) (auto split: list.splits)

lemma Split_not_Nil: "Split s sep \<noteq> []"
  by (induction s) (auto split: list.splits)






text \<open>
  Which keys \<open>Get\<close> rejects: it answers with the error \<open>invalid key: '<key>'\<close> and no
  value exactly for the keys that do not hold exactly two \<open>/\<close>.
\<close>

theorem Get_rejects_keys_without_two_slashes:
  "fst (Get s key) = Inr (None, Some (''invalid key: '' @ [quote] @ key @ [quote])) \<longleftrightarrow>
     length (filter (\<lambda>c. c = CHR ''/'') key) \<noteq> 2"
proof (cases "length (Split key (CHR ''/'')) = 3")
  case False
  then show ?thesis by (simp add: Get_def invalidKey_def Let_def length_Split)
next
  case True
  then have "fst (Get s key) \<noteq> Inr (None, Some (invalidKey key))"
    by (auto simp: Get_def Let_def split: prod.splits sum.splits option.splits if_splits)
  with True show ?thesis by (simp add: invalidKey_def length_Split)
qed

theorem Get_rejects_keys_without_two_slashes_witness:
  "fst (Get exStore ''a/b/c/d'') =
     Inr (None, Some (''invalid key: '' @ [quote] @ ''a/b/c/d'' @ [quote])) \<and>
   fst (Get exStore ''a/b/c'') \<noteq> Inr (None, Some (''invalid key: '' @ [quote] @ ''a/b/c'' @ [quote]))"
  using Get_rejects_keys_without_two_slashes [of exStore "''a/b/c/d''"]
    Get_rejects_keys_without_two_slashes [of exStore "''a/b/c''"]
  by simp

end
